theory Spec2Isabelle
  imports Main "HOL-Library.Sublist" "HOL-Library.AList"
begin

section \<open>JavaScript strings\<close>

text \<open>
  A JavaScript string is a sequence of UTF-16 code units. The model covers the strings whose
  code units are all below 256 (the Latin-1 range): one \<^typ>\<open>char\<close> per code unit, so that
  an accented letter of a Portuguese subject line is a single character (a with acute accent
  is \<^verbatim>\<open>CHR 0xE1\<close>). On that range
  \<^item> \<^verbatim>\<open>\s\<close> in a regular expression and the characters removed by \<^verbatim>\<open>trim()\<close> are the
    code units 9 to 13, 32 and 160;
  \<^item> \<^verbatim>\<open>\d\<close> is \<^verbatim>\<open>0\<close> to \<^verbatim>\<open>9\<close>;
  \<^item> \<^verbatim>\<open>toLowerCase()\<close> maps \<^verbatim>\<open>A\<close>-\<^verbatim>\<open>Z\<close> and the capital letters 192 to 222 (except 215, the
    multiplication sign) to the code unit 32 higher;
  \<^item> the \<^verbatim>\<open>i\<close> flag of a regular expression whose pattern is written in ASCII letters makes
    exactly \<^verbatim>\<open>A\<close>-\<^verbatim>\<open>Z\<close> match their lower-case letters.
\<close>

definition is_space :: "char \<Rightarrow> bool" where
  "is_space c = (of_char c \<in> {9, 10, 11, 12, 13, 32, 160 :: nat})"

definition is_digit :: "char \<Rightarrow> bool" where
  "is_digit c = (48 \<le> (of_char c :: nat) \<and> (of_char c :: nat) \<le> 57)"

definition toLowerCase_char :: "char \<Rightarrow> char" where
  "toLowerCase_char c =
     (let n = (of_char c :: nat) in
      if (65 \<le> n \<and> n \<le> 90) \<or> (192 \<le> n \<and> n \<le> 222 \<and> n \<noteq> 215)
      then char_of (n + 32) else c)"

definition toLowerCase :: "string \<Rightarrow> string" where
  "toLowerCase s = map toLowerCase_char s"

text \<open>Case folding of the subject character under the \<^verbatim>\<open>i\<close> flag, for an ASCII pattern.\<close>

definition fold_case :: "char \<Rightarrow> char" where
  "fold_case c =
     (let n = (of_char c :: nat) in if 65 \<le> n \<and> n \<le> 90 then char_of (n + 32) else c)"

text \<open>\<^verbatim>\<open>s.includes(needle)\<close> and \<^verbatim>\<open>s.startsWith(p)\<close>.\<close>

definition includes_js :: "string \<Rightarrow> string \<Rightarrow> bool" where
  "includes_js s needle = sublist needle s"

definition startsWith :: "string \<Rightarrow> string \<Rightarrow> bool" where
  "startsWith s p = prefix p s"

definition trim :: "string \<Rightarrow> string" where
  "trim s = rev (dropWhile is_space (rev (dropWhile is_space s)))"

text \<open>
  \<^verbatim>\<open>s.split(/\s+/)\<close>: the pieces between the maximal runs of white space. A run at the very
  start or end of the string leaves an empty piece there, and the empty string splits into one
  empty piece.
\<close>

function split_ws :: "string \<Rightarrow> string list" where
  "split_ws s =
     (case dropWhile (\<lambda>c. \<not> is_space c) s of
        [] \<Rightarrow> [s]
      | r # rs \<Rightarrow> takeWhile (\<lambda>c. \<not> is_space c) s # split_ws (dropWhile is_space rs))"
  by pat_completeness auto
termination
proof (relation "measure length")
  fix s :: string and r rs
  assume a: "dropWhile (\<lambda>c. \<not> is_space c) s = r # rs"
  have "length (dropWhile is_space rs) \<le> length rs"
    by (rule length_dropWhile_le)
  moreover have "length (r # rs) \<le> length s"
    unfolding a [symmetric] by (rule length_dropWhile_le)
  ultimately show "(dropWhile is_space rs, s) \<in> measure length"
    by simp
qed simp

declare split_ws.simps [simp del]

text \<open>\<^verbatim>\<open>String(n)\<close> for a non-negative integer \<^verbatim>\<open>n\<close>: its decimal digits.\<close>

fun String_nat :: "nat \<Rightarrow> string" where
  "String_nat n =
     (if n < 10 then [char_of (48 + n)] else String_nat (n div 10) @ [char_of (48 + n mod 10)])"

declare String_nat.simps [simp del]

text \<open>
  \<^verbatim>\<open>parseInt(s, 10)\<close> on a string of decimal digits only (what \<^verbatim>\<open>replace(/\D/g, '')\<close> leaves):
  \<^verbatim>\<open>NaN\<close>, here \<^const>\<open>None\<close>, on the empty string and the number otherwise. JavaScript numbers
  are doubles; the model keeps the exact integer.
\<close>

definition parseInt_digits :: "string \<Rightarrow> nat option" where
  "parseInt_digits s =
     (if s = [] then None
      else Some (foldl (\<lambda>acc c. 10 * acc + (of_char c - 48)) 0 s))"

section \<open>Data model\<close>

text \<open>
  The canonical listing record of \<^verbatim>\<open>types.ts\<close> (interface \<^verbatim>\<open>Listing\<close>), with the fields
  that \<^verbatim>\<open>parseAd\<close> fills in. A field of type \<^verbatim>\<open>string | null\<close> is an option.
\<close>

record listing =
  list_id :: string
  search_id :: string
  subject :: "string option"
  price :: "string option"
  municipality :: "string option"
  neighbourhood :: "string option"
  ad_url :: string
  model :: "string option"
  date_ts :: "string option"
  thumbnail_url :: "string option"
  mileage :: "nat option"
  collected_at :: string

text \<open>A listing with a given id and model, for the worked examples below.\<close>

definition example_listing :: "string \<Rightarrow> string option \<Rightarrow> listing" where
  "example_listing i m =
     \<lparr>list_id = i, search_id = ''s1'', subject = None, price = None, municipality = None,
      neighbourhood = None, ad_url = ''https://www.olx.com.br/a'', model = m, date_ts = None,
      thumbnail_url = None, mileage = None, collected_at = ''2026-01-01T00:00:00.000Z''\<rparr>"

text \<open>
  The raw item of the endpoint's JSON (interfaces \<^verbatim>\<open>OlxAd\<close> and \<^verbatim>\<open>OlxAdProperty\<close>) as it is
  at run time: the response is parsed JSON that nothing validates, so every field, also one
  that the interface declares as required, may be missing. A field is \<^const>\<open>None\<close> when it is
  \<^verbatim>\<open>undefined\<close> or \<^verbatim>\<open>null\<close> and \<^term>\<open>Some v\<close> when it holds a value of the declared type.
  The \<^verbatim>\<open>name\<close> of a property and the \<^verbatim>\<open>images\<close> of an ad are never read and are left out.
\<close>

record olx_ad_property =
  label :: "string option"
  prop_value :: "string option"

record olx_location =
  loc_municipality :: "string option"
  loc_neighbourhood :: "string option"

record olx_ad =
  listId :: "nat option"
  ad_subject :: "string option"
  url :: "string option"
  ad_price :: "string option"
  location :: "olx_location option"
  properties :: "olx_ad_property list option"
  thumbnail :: "string option"
  date :: "string option"

text \<open>
  Truthiness, as \<^verbatim>\<open>if (x)\<close>, \<^verbatim>\<open>!x\<close>, \<^verbatim>\<open>x && y\<close> and \<^verbatim>\<open>x || null\<close> test it: a missing value, the
  empty string and the number 0 are falsy.
\<close>

fun truthy_str :: "string option \<Rightarrow> bool" where
  "truthy_str None = False"
| "truthy_str (Some s) = (s \<noteq> [])"

fun truthy_num :: "nat option \<Rightarrow> bool" where
  "truthy_num None = False"
| "truthy_num (Some n) = (n \<noteq> 0)"

text \<open>\<^verbatim>\<open>x || null\<close> on an optional string and on an optional number.\<close>

definition or_null :: "string option \<Rightarrow> string option" where
  "or_null x = (if truthy_str x then x else None)"

definition or_null_num :: "nat option \<Rightarrow> nat option" where
  "or_null_num x = (if truthy_num x then x else None)"

text \<open>\<^verbatim>\<open>String(ad.listId)\<close>; \<^verbatim>\<open>String(undefined)\<close> is the text \<^verbatim>\<open>undefined\<close>.\<close>

fun String_listId :: "nat option \<Rightarrow> string" where
  "String_listId None = ''undefined''"
| "String_listId (Some n) = String_nat n"

text \<open>A \<^verbatim>\<open>TypeError\<close> is the only exception the modelled code can raise.\<close>

datatype js_error = TypeError

section \<open>Listing parser\<close>

subsection \<open>\<^verbatim>\<open>extractModelFromSubject\<close>\<close>

definition noise_words :: "string list" where
  "noise_words = [''vendo'', ''troco'', ''compro'', ''alugo'', ''financio'', ''repasso'',
     ''barato'', ''urgente'', ''oportunidade'', ''novo'', ''lindo'', ''top'']"

text \<open>
  The regular expression \<^verbatim>\<open>/^(vendo|troco|...|top)\s+/i\<close> matches at the start of \<^verbatim>\<open>text\<close> with
  the alternative \<^verbatim>\<open>w\<close> when \<^verbatim>\<open>text\<close> begins with \<^verbatim>\<open>w\<close> (in any case) and a white-space
  character follows. \<^verbatim>\<open>text.replace(noise, '')\<close> removes the first alternative that matches,
  together with all the white space after it (\<^verbatim>\<open>\s+\<close> is greedy).
\<close>

definition noise_match :: "string \<Rightarrow> string \<Rightarrow> bool" where
  "noise_match text w =
     (map fold_case (take (length w) text) = w
      \<and> (case drop (length w) text of [] \<Rightarrow> False | c # _ \<Rightarrow> is_space c))"

definition strip_noise :: "string \<Rightarrow> string" where
  "strip_noise text =
     (case find (noise_match text) noise_words of
        None \<Rightarrow> text
      | Some w \<Rightarrow> dropWhile is_space (drop (length w) text))"

text \<open>\<^verbatim>\<open>/^(19|20)\d{2}$/\<close>, \<^verbatim>\<open>/^\d\.\d$/\<close> and \<^verbatim>\<open>/^(4p|2p|flex|auto|manual|aut|mt|at)$/i\<close>.\<close>

definition is_year :: "string \<Rightarrow> bool" where
  "is_year w =
     (case w of
        [a, b, c, d] \<Rightarrow> ([a, b] = ''19'' \<or> [a, b] = ''20'') \<and> is_digit c \<and> is_digit d
      | _ \<Rightarrow> False)"

definition is_engine :: "string \<Rightarrow> bool" where
  "is_engine w =
     (case w of [a, b, c] \<Rightarrow> is_digit a \<and> b = CHR ''.'' \<and> is_digit c | _ \<Rightarrow> False)"

definition spec_words :: "string list" where
  "spec_words = [''4p'', ''2p'', ''flex'', ''auto'', ''manual'', ''aut'', ''mt'', ''at'']"

definition is_spec :: "string \<Rightarrow> bool" where
  "is_spec w = (map fold_case w \<in> set spec_words)"

definition extractModelFromSubject :: "string \<Rightarrow> string option" where
  "extractModelFromSubject subj =
     (let text = strip_noise (trim subj);
          words = split_ws text;
          cleanWords = filter (\<lambda>w. \<not> is_year w \<and> \<not> is_engine w) words
      in if length cleanWords \<ge> 1 then
           (if length cleanWords \<ge> 2 \<and> \<not> is_spec (cleanWords ! 1)
            then Some (cleanWords ! 0 @ '' '' @ cleanWords ! 1)
            else Some (cleanWords ! 0))
         else None)"

subsection \<open>The subject-line heuristic in the specification's words\<close>

text \<open>The tokens of a text: its maximal runs of characters that are not white space.\<close>

function tokens :: "string \<Rightarrow> string list" where
  "tokens s =
     (case dropWhile is_space s of
        [] \<Rightarrow> []
      | c # cs \<Rightarrow> (c # takeWhile (\<lambda>x. \<not> is_space x) cs)
                   # tokens (dropWhile (\<lambda>x. \<not> is_space x) cs))"
  by pat_completeness auto
termination
proof (relation "measure length")
  fix s :: string and c cs
  assume a: "dropWhile is_space s = c # cs"
  have "length (dropWhile (\<lambda>x. \<not> is_space x) cs) \<le> length cs"
    by (rule length_dropWhile_le)
  moreover have "length (c # cs) \<le> length s"
    unfolding a [symmetric] by (rule length_dropWhile_le)
  ultimately show "(dropWhile (\<lambda>x. \<not> is_space x) cs, s) \<in> measure length"
    by simp
qed simp

declare tokens.simps [simp del]

definition is_noise :: "string \<Rightarrow> bool" where
  "is_noise w = (map fold_case w \<in> set noise_words)"

text \<open>
  Drop the year and engine-size tokens; of what remains return the first two tokens joined by
  a space when the second is not spec-like, the first token alone otherwise, and nothing when
  no token remains.
\<close>

definition pick_model :: "string list \<Rightarrow> string option" where
  "pick_model ts =
     (case filter (\<lambda>w. \<not> is_year w \<and> \<not> is_engine w) ts of
        [] \<Rightarrow> None
      | [a] \<Rightarrow> Some a
      | a # b # _ \<Rightarrow> if is_spec b then Some a else Some (a @ '' '' @ b))"

text \<open>
  The heuristic as the specification states it: a leading noise word is stripped whenever it
  is present.
\<close>

definition heuristic_as_stated :: "string \<Rightarrow> string option" where
  "heuristic_as_stated subj =
     pick_model (case tokens subj of
                   [] \<Rightarrow> []
                 | w # ws \<Rightarrow> if is_noise w then ws else w # ws)"

text \<open>
  The same with the leading noise word stripped only when more text follows it, which is what
  the white space required after the word by the regular expression amounts to.
\<close>

definition heuristic_amended :: "string \<Rightarrow> string option" where
  "heuristic_amended subj =
     pick_model (case tokens subj of
                   [] \<Rightarrow> []
                 | w # ws \<Rightarrow> if is_noise w \<and> ws \<noteq> [] then ws else w # ws)"

subsection \<open>\<^verbatim>\<open>parseAd\<close>\<close>

text \<open>
  \<^verbatim>\<open>ad.properties.find(p => pred(p.label.toLowerCase()))\<close>. The callback reads
  \<^verbatim>\<open>p.label.toLowerCase\<close> of every entry up to the first match; on an entry without a label
  that is a property access on \<^verbatim>\<open>undefined\<close>, a \<^verbatim>\<open>TypeError\<close>.
\<close>

fun find_by_label ::
  "(string \<Rightarrow> bool) \<Rightarrow> olx_ad_property list \<Rightarrow> js_error + olx_ad_property option" where
  "find_by_label pred [] = Inr None"
| "find_by_label pred (p # ps) =
     (case label p of
        None \<Rightarrow> Inl TypeError
      | Some l \<Rightarrow> if pred (toLowerCase l) then Inr (Some p) else find_by_label pred ps)"

definition is_model_label :: "string \<Rightarrow> bool" where
  "is_model_label l = (includes_js l ''modelo'' \<or> includes_js l ''model'')"

text \<open>
  The first needle is spelled as the source file has it: \<^verbatim>\<open>quil\<close>, the code units 195 and
  180, \<^verbatim>\<open>met\<close>.
\<close>

definition is_mileage_label :: "string \<Rightarrow> bool" where
  "is_mileage_label l =
     (includes_js l (''quil'' @ [CHR 0xC3, CHR 0xB4] @ ''met'')
      \<or> includes_js l ''mileage'' \<or> includes_js l ''km'')"

definition OLX_BASE_URL :: string where
  "OLX_BASE_URL = ''https://www.olx.com.br''"

text \<open>
  The model read from the properties (\<^verbatim>\<open>modelProp.value\<close>, which may itself be missing), and
  the mileage (\<^verbatim>\<open>parseInt(mileageProp.value.replace(/\D/g, ''), 10) || null\<close>, where a missing
  value makes \<^verbatim>\<open>.replace\<close> a property access on \<^verbatim>\<open>undefined\<close>).
\<close>

definition model_of_properties :: "olx_ad \<Rightarrow> js_error + string option" where
  "model_of_properties ad =
     (case properties ad of
        None \<Rightarrow> Inr None
      | Some ps \<Rightarrow>
          (case find_by_label is_model_label ps of
             Inl e \<Rightarrow> Inl e
           | Inr None \<Rightarrow> Inr None
           | Inr (Some modelProp) \<Rightarrow> Inr (prop_value modelProp)))"

definition mileage_of_properties :: "olx_ad \<Rightarrow> js_error + nat option" where
  "mileage_of_properties ad =
     (case properties ad of
        None \<Rightarrow> Inr None
      | Some ps \<Rightarrow>
          (case find_by_label is_mileage_label ps of
             Inl e \<Rightarrow> Inl e
           | Inr None \<Rightarrow> Inr None
           | Inr (Some mileageProp) \<Rightarrow>
               (case prop_value mileageProp of
                  None \<Rightarrow> Inl TypeError
                | Some v \<Rightarrow> Inr (or_null_num (parseInt_digits (filter is_digit v))))))"

text \<open>
  \<^verbatim>\<open>parseAd(ad, searchId)\<close>. The third argument is the reading of \<^verbatim>\<open>new Date().toISOString()\<close>.
  The result is \<^term>\<open>Inl TypeError\<close> when the JavaScript raises.
\<close>

definition parseAd :: "olx_ad \<Rightarrow> string \<Rightarrow> string \<Rightarrow> js_error + listing" where
  "parseAd ad searchId now =
     (case model_of_properties ad of
        Inl e \<Rightarrow> Inl e
      | Inr model0 \<Rightarrow>
          (let model1 = (case ad_subject ad of
                           None \<Rightarrow> model0
                         | Some s \<Rightarrow> if \<not> truthy_str model0 \<and> s \<noteq> []
                                     then extractModelFromSubject s else model0)
           in case mileage_of_properties ad of
                Inl e \<Rightarrow> Inl e
              | Inr mileage0 \<Rightarrow>
                  (case url ad of
                     None \<Rightarrow> Inl TypeError
                   | Some u \<Rightarrow>
                       Inr \<lparr>list_id = String_listId (listId ad),
                            search_id = searchId,
                            subject = or_null (ad_subject ad),
                            price = or_null (ad_price ad),
                            municipality =
                              (case location ad of None \<Rightarrow> None
                               | Some loc \<Rightarrow> or_null (loc_municipality loc)),
                            neighbourhood =
                              (case location ad of None \<Rightarrow> None
                               | Some loc \<Rightarrow> or_null (loc_neighbourhood loc)),
                            ad_url = (if startsWith u ''http'' then u else OLX_BASE_URL @ u),
                            model = model1,
                            date_ts = or_null (date ad),
                            thumbnail_url = or_null (thumbnail ad),
                            mileage = mileage0,
                            collected_at = now\<rparr>)))"

text \<open>
  An ad conforms to the declared interface \<^verbatim>\<open>OlxAdProperty\<close> when every entry of its property
  list has a label and a value.
\<close>

definition properties_well_typed :: "olx_ad \<Rightarrow> bool" where
  "properties_well_typed ad =
     (case properties ad of
        None \<Rightarrow> True
      | Some ps \<Rightarrow> list_all (\<lambda>p. label p \<noteq> None \<and> prop_value p \<noteq> None) ps)"

text \<open>An ad with a given id, subject and property list, for the worked examples below.\<close>

definition example_ad :: "nat \<Rightarrow> string option \<Rightarrow> olx_ad_property list option \<Rightarrow> olx_ad" where
  "example_ad n s ps =
     \<lparr>listId = Some n, ad_subject = s, url = Some ''/item'', ad_price = Some ''R$ 10.000'',
      location = None, properties = ps, thumbnail = None, date = None\<rparr>"

section \<open>Diff engine and filter engine\<close>

text \<open>
  \<^verbatim>\<open>computeDiff(currentListings, seenIds)\<close>:
  \<^verbatim>\<open>currentListings.filter(listing => !seenIds.has(listing.list_id))\<close>.
  \<^verbatim>\<open>Array.prototype.filter\<close> builds a new array and \<^verbatim>\<open>Set.prototype.has\<close> reads the set.
\<close>

definition computeDiff :: "listing list \<Rightarrow> string set \<Rightarrow> listing list" where
  "computeDiff currentListings seenIds =
     filter (\<lambda>l. list_id l \<notin> seenIds) currentListings"

text \<open>
  \<^verbatim>\<open>applyModelFilters(listings, whitelist, blacklist)\<close>. The test \<^verbatim>\<open>!listing.model\<close> holds for
  \<^verbatim>\<open>null\<close> and for the empty string.
\<close>

definition applyModelFilters :: "listing list \<Rightarrow> string list \<Rightarrow> string list \<Rightarrow> listing list" where
  "applyModelFilters listings whitelist blacklist =
     (let filtered = listings;
          filtered =
            (if length whitelist > 0 then
               (let whitelistLower = map toLowerCase whitelist
                in filter (\<lambda>l. case model l of
                                  None \<Rightarrow> False
                                | Some m \<Rightarrow>
                                    if m = [] then False
                                    else list_ex (\<lambda>w. includes_js (toLowerCase m) w) whitelistLower)
                     filtered)
             else filtered);
          filtered =
            (if length blacklist > 0 then
               (let blacklistLower = map toLowerCase blacklist
                in filter (\<lambda>l. case model l of
                                  None \<Rightarrow> True
                                | Some m \<Rightarrow>
                                    if m = [] then True
                                    else \<not> list_ex (\<lambda>b. includes_js (toLowerCase m) b) blacklistLower)
                     filtered)
             else filtered)
      in filtered)"

subsection \<open>The filter engine in the specification's words\<close>

text \<open>
  A model contains a term as a case-insensitive substring when some contiguous piece of the
  model equals the term up to case.
\<close>

definition ci_contains :: "string \<Rightarrow> string \<Rightarrow> bool" where
  "ci_contains m t =
     (\<exists>u \<in> set (concat (map prefixes (suffixes m))). toLowerCase u = toLowerCase t)"

text \<open>
  The two filters as the specification states them: a listing passes the whitelist when its
  model is not absent and contains a whitelist term, and is dropped by the blacklist when its
  model is not absent and contains a blacklist term.
\<close>

definition filters_as_stated :: "listing list \<Rightarrow> string list \<Rightarrow> string list \<Rightarrow> listing list" where
  "filters_as_stated ls whitelist blacklist =
     filter (\<lambda>l. blacklist = [] \<or>
                  (case model l of None \<Rightarrow> True
                   | Some m \<Rightarrow> \<not> (\<exists>b \<in> set blacklist. ci_contains m b)))
       (filter (\<lambda>l. whitelist = [] \<or>
                     (case model l of None \<Rightarrow> False
                      | Some m \<Rightarrow> (\<exists>w \<in> set whitelist. ci_contains m w)))
          ls)"

text \<open>The same with the empty model counted as absent, as \<^verbatim>\<open>!listing.model\<close> counts it.\<close>

definition filters_amended :: "listing list \<Rightarrow> string list \<Rightarrow> string list \<Rightarrow> listing list" where
  "filters_amended ls whitelist blacklist =
     filter (\<lambda>l. blacklist = [] \<or>
                  (case model l of None \<Rightarrow> True
                   | Some m \<Rightarrow> m = [] \<or> \<not> (\<exists>b \<in> set blacklist. ci_contains m b)))
       (filter (\<lambda>l. whitelist = [] \<or>
                     (case model l of None \<Rightarrow> False
                      | Some m \<Rightarrow> m \<noteq> [] \<and> (\<exists>w \<in> set whitelist. ci_contains m w)))
          ls)"

section \<open>Page fetcher\<close>

text \<open>
  What \<^verbatim>\<open>fetch(dataUrl)\<close> and \<^verbatim>\<open>response.json()\<close> deliver: a transport failure, or a status
  code with a body that is either not the expected JSON (\<^verbatim>\<open>response.json()\<close> or the array
  handling raises) or has the array \<^verbatim>\<open>data?.pageProps?.ads\<close>, possibly missing.
\<close>

datatype page_body = BadBody | Ads "olx_ad list option"

datatype http_response = NetworkError | Response nat page_body

text \<open>The validity filter of \<^verbatim>\<open>fetchPage\<close>: \<^verbatim>\<open>ad.listId && ad.url\<close>.\<close>

definition valid_ad :: "olx_ad \<Rightarrow> bool" where
  "valid_ad ad = (truthy_num (listId ad) \<and> truthy_str (url ad))"

text \<open>
  \<^verbatim>\<open>fetchPage(dataUrl)\<close> applied to the response of the network: the pair of \<^verbatim>\<open>ads\<close> and
  \<^verbatim>\<open>status\<close>. \<^verbatim>\<open>response.ok\<close> is a status from 200 to 299. Every exception is caught and
  reported as status 500.
\<close>

definition fetchPage :: "http_response \<Rightarrow> olx_ad list \<times> nat" where
  "fetchPage r =
     (case r of
        NetworkError \<Rightarrow> ([], 500)
      | Response status body \<Rightarrow>
          if status = 404 then ([], 404)
          else if \<not> (200 \<le> status \<and> status \<le> 299) then ([], status)
          else (case body of
                  BadBody \<Rightarrow> ([], 500)
                | Ads None \<Rightarrow> ([], 200)
                | Ads (Some ads) \<Rightarrow> (filter valid_ad ads, 200)))"

section \<open>Endpoint resolver and scan orchestrator\<close>

text \<open>
  The outside world of one run. Each oracle is indexed by the value of \<^verbatim>\<open>requestsCount\<close> at
  the moment of the call, so that two calls of one run may be answered differently:
  \<^item> \<^verbatim>\<open>html_build_id\<close> is the result of \<^verbatim>\<open>extractBuildId(humanUrl)\<close>, the build identifier found
    in the fetched page or \<^verbatim>\<open>null\<close>;
  \<^item> \<^verbatim>\<open>page_response\<close> is the response to the data URL built from the build identifier and
    the page number;
  \<^item> \<^verbatim>\<open>clock\<close> is \<^verbatim>\<open>Date.now()\<close>.
  The human URL is fixed for the run and is represented by its origin \<^verbatim>\<open>urlHost\<close>, the key of
  the build-identifier cache.
\<close>

record env =
  html_build_id :: "nat \<Rightarrow> string option"
  page_response :: "nat \<Rightarrow> string \<Rightarrow> int \<Rightarrow> http_response"
  clock :: "nat \<Rightarrow> nat"

type_synonym build_cache = "string \<rightharpoonup> string \<times> nat"

definition MAX_PAGES :: int where "MAX_PAGES = 5"

definition BUILD_ID_CACHE_TTL :: nat where "BUILD_ID_CACHE_TTL = 60 * 60 * 1000"

definition MAX_RETRIES :: nat where "MAX_RETRIES = 1"

text \<open>
  \<^verbatim>\<open>getBuildId(humanUrl)\<close>, called when \<^verbatim>\<open>requestsCount\<close> is \<^verbatim>\<open>n\<close>: the cached identifier
  while it is younger than the TTL, the extracted one otherwise, which is cached when it is
  truthy. The result is the identifier and the cache after the call.
\<close>

definition resolve_fresh :: "env \<Rightarrow> nat \<Rightarrow> build_cache \<Rightarrow> string \<Rightarrow> string option \<times> build_cache" where
  "resolve_fresh e n cache urlHost =
     (case html_build_id e n of
        None \<Rightarrow> (None, cache)
      | Some b \<Rightarrow> (Some b, if b \<noteq> [] then cache(urlHost \<mapsto> (b, clock e n)) else cache))"

definition getBuildId :: "env \<Rightarrow> nat \<Rightarrow> build_cache \<Rightarrow> string \<Rightarrow> string option \<times> build_cache" where
  "getBuildId e n cache urlHost =
     (case cache urlHost of
        Some (cachedId, timestamp) \<Rightarrow>
          if int (clock e n) - int timestamp < int BUILD_ID_CACHE_TTL
          then (Some cachedId, cache)
          else resolve_fresh e n cache urlHost
      | None \<Rightarrow> resolve_fresh e n cache urlHost)"

datatype stop_reason = Completed | Limit | Loop | Error | Empty | Budget

text \<open>
  The local variables of \<^verbatim>\<open>fetchAllPages\<close> and the module-level cache. The map
  \<^verbatim>\<open>pageFirstIds\<close> is the list of its entries in insertion order, and
  \<^verbatim>\<open>pageFirstIds.set(page, firstId)\<close> is \<^const>\<open>AList.update\<close>: the value of an existing key is
  replaced in place and a new key is appended.
\<close>

record loop_state =
  acc_listings :: "listing list"
  seenIds :: "string set"
  requestsCount :: nat
  stopReason :: stop_reason
  errorMessage :: "string option"
  pageFirstIds :: "(int \<times> string) list"
  buildId :: string
  buildIdCache :: build_cache
  page :: int
  retryCount :: nat

text \<open>
  The loop \<^verbatim>\<open>for (const ad of ads)\<close> that parses and deduplicates one page: an ad whose id
  was not met in this run is parsed and appended. An exception of \<^verbatim>\<open>parseAd\<close> ends the run.
\<close>

fun add_ads ::
  "string \<Rightarrow> string \<Rightarrow> olx_ad list \<Rightarrow> listing list \<times> string set
     \<Rightarrow> js_error + listing list \<times> string set" where
  "add_ads searchId now [] (ls, seen) = Inr (ls, seen)"
| "add_ads searchId now (ad # ads) (ls, seen) =
     (let listId = String_listId (listId ad)
      in if listId \<notin> seen then
           (case parseAd ad searchId now of
              Inl e \<Rightarrow> Inl e
            | Inr l \<Rightarrow> add_ads searchId now ads (ls @ [l], insert listId seen))
         else add_ads searchId now ads (ls, seen))"

text \<open>
  One pass through the body of the \<^verbatim>\<open>for\<close> loop ends in \<^verbatim>\<open>continue\<close> or at the end of the
  body (\<open>Continue\<close>; the loop then runs \<^verbatim>\<open>page++\<close>), in \<^verbatim>\<open>break\<close> (\<open>Break\<close>), or in an
  exception (\<open>Throw\<close>).
\<close>

datatype outcome = Continue loop_state | Break loop_state | Throw js_error

text \<open>
  The branch \<^verbatim>\<open>status === 404 && retryCount < MAX_RETRIES\<close>: one forced refresh of the build
  identifier, then the retry of the same page (\<^verbatim>\<open>page--\<close> before \<^verbatim>\<open>continue\<close>) or the end of
  the run.
\<close>

definition refresh_build_id :: "env \<Rightarrow> string \<Rightarrow> loop_state \<Rightarrow> outcome" where
  "refresh_build_id e urlHost st =
     (let newBuildId = html_build_id e (requestsCount st);
          st = st\<lparr>requestsCount := requestsCount st + 1\<rparr>
      in case newBuildId of
           None \<Rightarrow>
             Break (st\<lparr>stopReason := Error,
                       errorMessage := Some ''BuildId expired and refresh failed''\<rparr>)
         | Some b \<Rightarrow>
             if b \<noteq> [] \<and> b \<noteq> buildId st then
               Continue (st\<lparr>buildId := b,
                            buildIdCache :=
                              (buildIdCache st)(urlHost \<mapsto> (b, clock e (requestsCount st))),
                            page := page st - 1,
                            retryCount := retryCount st + 1\<rparr>)
             else
               Break (st\<lparr>stopReason := Error,
                         errorMessage := Some ''BuildId expired and refresh failed''\<rparr>))"

text \<open>
  The rest of the body for a page with a non-empty result array: the anti-loop check, then
  the recording of the first id and the accumulation of the listings. The timestamp of the
  parsed listings is a function of the clock.
\<close>

definition accept_page ::
  "env \<Rightarrow> (nat \<Rightarrow> string) \<Rightarrow> string \<Rightarrow> olx_ad list \<Rightarrow> loop_state \<Rightarrow> outcome" where
  "accept_page e toISOString searchId ads st =
     (let firstId = String_listId (listId (ads ! 0))
      in if list_ex (\<lambda>(p, fid). fid = firstId) (pageFirstIds st) then
           Break (st\<lparr>stopReason := Loop\<rparr>)
         else
           (let st = st\<lparr>pageFirstIds := AList.update (page st) firstId (pageFirstIds st)\<rparr>
            in case add_ads searchId (toISOString (clock e (requestsCount st))) ads
                      (acc_listings st, seenIds st) of
                 Inl err \<Rightarrow> Throw err
               | Inr (ls, seen) \<Rightarrow> Continue (st\<lparr>acc_listings := ls, seenIds := seen\<rparr>)))"

definition iteration ::
  "env \<Rightarrow> (nat \<Rightarrow> string) \<Rightarrow> string \<Rightarrow> string \<Rightarrow> loop_state \<Rightarrow> outcome" where
  "iteration e toISOString urlHost searchId st =
     (let st = st\<lparr>requestsCount := requestsCount st + 1\<rparr>;
          (ads, status) = fetchPage (page_response e (requestsCount st) (buildId st) (page st))
      in if status = 404 \<and> retryCount st < MAX_RETRIES then
           refresh_build_id e urlHost st
         else if status = 404 then
           Break (st\<lparr>stopReason := Error,
                     errorMessage := Some ''Page 404 (likely buildId) after retry''\<rparr>)
         else if status \<noteq> 200 \<and> status \<noteq> 404 then
           Break (st\<lparr>stopReason := Error, errorMessage := Some (''HTTP '' @ String_nat status)\<rparr>)
         else if length ads = 0 then
           Break (st\<lparr>stopReason := (if page st = 1 then Empty else Completed)\<rparr>)
         else
           accept_page e toISOString searchId ads st)"

text \<open>
  The loop \<^verbatim>\<open>for (; page <= maxPages; page++)\<close>: the state when the loop is left, or the
  exception that ended it.
\<close>

function fetch_loop ::
  "env \<Rightarrow> (nat \<Rightarrow> string) \<Rightarrow> string \<Rightarrow> string \<Rightarrow> int \<Rightarrow> loop_state \<Rightarrow> js_error + loop_state" where
  "fetch_loop e toISOString urlHost searchId maxPages st =
     (if page st \<le> maxPages then
        (case iteration e toISOString urlHost searchId st of
           Continue st' \<Rightarrow> fetch_loop e toISOString urlHost searchId maxPages (st'\<lparr>page := page st' + 1\<rparr>)
         | Break st' \<Rightarrow> Inr st'
         | Throw err \<Rightarrow> Inl err)
      else Inr st)"
  by pat_completeness auto
termination
proof (relation "measure (\<lambda>(e, toISOString, urlHost, searchId, maxPages, st).
                   2 * nat (maxPages + 1 - page st) + (MAX_RETRIES - retryCount st))")
  fix e :: env and toISOString :: "nat \<Rightarrow> string" and urlHost searchId :: string
    and maxPages :: int and st st' :: loop_state
  assume le: "page st \<le> maxPages"
    and it: "iteration e toISOString urlHost searchId st = Continue st'"
  have "(page st' = page st \<and> retryCount st' = retryCount st)
        \<or> (page st' = page st - 1 \<and> retryCount st < MAX_RETRIES
            \<and> retryCount st' = retryCount st + 1)"
    using it
    by (auto simp: iteration_def refresh_build_id_def accept_page_def Let_def
          split: prod.splits if_splits option.splits sum.splits)
  then show "((e, toISOString, urlHost, searchId, maxPages, st'\<lparr>page := page st' + 1\<rparr>),
              (e, toISOString, urlHost, searchId, maxPages, st))
             \<in> measure (\<lambda>(e, toISOString, urlHost, searchId, maxPages, st).
                   2 * nat (maxPages + 1 - page st) + (MAX_RETRIES - retryCount st))"
    using le by (auto simp: MAX_RETRIES_def)
qed simp

declare fetch_loop.simps [simp del]

text \<open>The statistics returned by \<^verbatim>\<open>fetchAllPages\<close> (interface \<^verbatim>\<open>FetchStats\<close>).\<close>

record fetch_stats =
  listings :: "listing list"
  sp_min :: int
  sp_max :: int
  stop_reason :: stop_reason
  duration_ms :: int
  requests_count :: nat
  first_list_id :: "string option"
  error_message :: "string option"

text \<open>The code after the loop, given the reading \<^verbatim>\<open>startTime\<close> of the clock.\<close>

definition finish :: "env \<Rightarrow> nat \<Rightarrow> int \<Rightarrow> loop_state \<Rightarrow> fetch_stats" where
  "finish e startTime maxPages st =
     \<lparr>listings = acc_listings st,
      sp_min = 1,
      sp_max = min (page st) maxPages,
      stop_reason = (if page st > maxPages \<and> stopReason st = Completed then Limit
                     else stopReason st),
      duration_ms = int (clock e (requestsCount st)) - int startTime,
      requests_count = requestsCount st,
      first_list_id = or_null (map_of (pageFirstIds st) 1),
      error_message = errorMessage st\<rparr>"

text \<open>
  \<^verbatim>\<open>fetchAllPages(humanUrl, searchId, maxPages)\<close>, started with the module-level cache
  \<^verbatim>\<open>cache\<close>: the statistics, or the exception. The function \<^verbatim>\<open>toISOString\<close> renders a clock
  reading as \<^verbatim>\<open>new Date().toISOString()\<close> does. The inter-page delay of 500 ms passes no
  value and is left out.
\<close>

definition initial_state :: "string \<Rightarrow> build_cache \<Rightarrow> loop_state" where
  "initial_state b cache =
     \<lparr>acc_listings = [], seenIds = {}, requestsCount = 1, stopReason = Completed,
      errorMessage = None, pageFirstIds = [], buildId = b, buildIdCache = cache,
      page = 1, retryCount = 0\<rparr>"

definition fetchAllPages ::
  "env \<Rightarrow> (nat \<Rightarrow> string) \<Rightarrow> build_cache \<Rightarrow> string \<Rightarrow> string \<Rightarrow> int
     \<Rightarrow> (js_error + fetch_stats)" where
  "fetchAllPages e toISOString cache urlHost searchId maxPages =
     (let startTime = clock e 0;
          (buildId0, cache) = getBuildId e 0 cache urlHost
      in case buildId0 of
           None \<Rightarrow>
             Inr \<lparr>listings = [], sp_min = 0, sp_max = 0, stop_reason = Error,
                  duration_ms = int (clock e 1) - int startTime, requests_count = 1,
                  first_list_id = None, error_message = Some ''Could not resolve buildId''\<rparr>
         | Some b \<Rightarrow>
             if b = [] then
               Inr \<lparr>listings = [], sp_min = 0, sp_max = 0, stop_reason = Error,
                    duration_ms = int (clock e 1) - int startTime, requests_count = 1,
                    first_list_id = None, error_message = Some ''Could not resolve buildId''\<rparr>
             else
               (case fetch_loop e toISOString urlHost searchId maxPages (initial_state b cache) of
                  Inl err \<Rightarrow> Inl err
                | Inr st \<Rightarrow> Inr (finish e startTime maxPages st)))"

text \<open>
  A run for the worked examples below. The cached build identifier \<^verbatim>\<open>b1\<close> is stale and
  every data page under it answers 404; a refresh finds \<^verbatim>\<open>b2\<close>, under which page 1 and
  page 2 have two ads each, page 3 begins with the first ad of page 1 again, and the later
  pages are empty.
\<close>

definition example_env :: env where
  "example_env =
     \<lparr>html_build_id = (\<lambda>n. Some ''b2''),
      page_response = (\<lambda>n b p.
         if b \<noteq> ''b2'' then Response 404 BadBody
         else if p = 1 then
           Response 200 (Ads (Some [example_ad 101 None None, example_ad 102 None None]))
         else if p = 2 then
           Response 200 (Ads (Some [example_ad 103 None None, example_ad 104 None None]))
         else if p = 3 then
           Response 200 (Ads (Some [example_ad 101 None None, example_ad 105 None None]))
         else Response 200 (Ads (Some []))),
      clock = (\<lambda>n. 1000 * n)\<rparr>"

definition example_iso :: "nat \<Rightarrow> string" where
  "example_iso n = ''T'' @ String_nat n"


text \<open>
  A run whose first page has one ad with a property entry that lacks the label.
\<close>

definition example_env_untyped :: env where
  "example_env_untyped =
     \<lparr>html_build_id = (\<lambda>n. Some ''b2''),
      page_response = (\<lambda>n b p.
         Response 200
           (Ads (Some [example_ad 201 None (Some [\<lparr>label = None, prop_value = Some ''Gol''\<rparr>])]))),
      clock = (\<lambda>n. 1000 * n)\<rparr>"
section \<open>Seen-set persistence and the scan\<close>

text \<open>
  The table \<^verbatim>\<open>seen_ids\<close> of \<^verbatim>\<open>schema.sql\<close>: rows in insertion order, and the counter behind
  \<^verbatim>\<open>id INTEGER PRIMARY KEY AUTOINCREMENT\<close>. The column \<^verbatim>\<open>first_seen_at\<close> holds the text of
  \<^verbatim>\<open>datetime('now')\<close>, whose order as text is the order in time; it is modelled as a number of
  seconds.
\<close>

record seen_row =
  row_id :: nat
  row_search_id :: string
  row_list_id :: string
  first_seen_at :: nat

record seen_db =
  rows :: "seen_row list"
  next_id :: nat

definition empty_db :: seen_db where
  "empty_db = \<lparr>rows = [], next_id = 1\<rparr>"

definition SEEN_IDS_CAP :: nat where "SEEN_IDS_CAP = 2000"

text \<open>\<^verbatim>\<open>getSeenIds\<close>: \<^verbatim>\<open>SELECT list_id FROM seen_ids WHERE search_id = ?\<close>, as a set.\<close>

definition rows_of :: "seen_db \<Rightarrow> string \<Rightarrow> seen_row list" where
  "rows_of db searchId = filter (\<lambda>r. row_search_id r = searchId) (rows db)"

definition getSeenIds :: "seen_db \<Rightarrow> string \<Rightarrow> string set" where
  "getSeenIds db searchId = set (map row_list_id (rows_of db searchId))"

text \<open>
  \<^verbatim>\<open>INSERT OR IGNORE INTO seen_ids (search_id, list_id) VALUES (?, ?)\<close> under the constraint
  \<^verbatim>\<open>UNIQUE(search_id, list_id)\<close>, executed when the clock of the database reads \<^verbatim>\<open>now\<close>: the
  new row takes the default \<^verbatim>\<open>datetime('now')\<close> as its \<^verbatim>\<open>first_seen_at\<close>. SQLite draws the
  \<^verbatim>\<open>AUTOINCREMENT\<close> key before it checks the constraint, so an insert that is ignored uses up
  a key as well.
\<close>

definition insert_or_ignore :: "nat \<Rightarrow> string \<Rightarrow> string \<Rightarrow> seen_db \<Rightarrow> seen_db" where
  "insert_or_ignore now searchId lid db =
     (if \<exists>r \<in> set (rows db). row_search_id r = searchId \<and> row_list_id r = lid
      then db\<lparr>next_id := next_id db + 1\<rparr>
      else db\<lparr>rows := rows db @ [\<lparr>row_id = next_id db, row_search_id = searchId,
                                    row_list_id = lid, first_seen_at = now\<rparr>],
              next_id := next_id db + 1\<rparr>)"

text \<open>
  \<^verbatim>\<open>env.DB.batch(newIds.map(id => insertStmt.bind(searchId, id)))\<close>: the statements run in
  order; the statement number \<^verbatim>\<open>k\<close> of the batch reads the clock as \<^verbatim>\<open>now k\<close>.
\<close>

fun insert_batch :: "(nat \<Rightarrow> nat) \<Rightarrow> string \<Rightarrow> string list \<Rightarrow> seen_db \<Rightarrow> seen_db" where
  "insert_batch now searchId [] db = db"
| "insert_batch now searchId (i # ids) db =
     insert_batch (\<lambda>k. now (Suc k)) searchId ids (insert_or_ignore (now 0) searchId i db)"

text \<open>
  The subquery of the cap, \<^verbatim>\<open>SELECT id FROM seen_ids WHERE search_id = ? ORDER BY first_seen_at
  DESC LIMIT ?\<close>, as the list of the selected rows. SQL leaves the order among rows of equal
  \<^verbatim>\<open>first_seen_at\<close> to the database. The function \<^verbatim>\<open>tie\<close> stands for that choice: rows of
  equal \<^verbatim>\<open>first_seen_at\<close> come in the order of their \<^verbatim>\<open>tie\<close>. It is an argument of every
  call, so nothing is assumed about it.
\<close>

definition cap_select :: "(seen_row \<Rightarrow> nat) \<Rightarrow> string \<Rightarrow> seen_db \<Rightarrow> seen_row list" where
  "cap_select tie searchId db =
     take SEEN_IDS_CAP
       (sort_key (\<lambda>r. - int (first_seen_at r)) (sort_key tie (rows_of db searchId)))"

text \<open>
  The cap: \<^verbatim>\<open>DELETE FROM seen_ids WHERE search_id = ? AND id NOT IN (SELECT ...)\<close>.
\<close>

definition enforce_cap :: "(seen_row \<Rightarrow> nat) \<Rightarrow> string \<Rightarrow> seen_db \<Rightarrow> seen_db" where
  "enforce_cap tie searchId db =
     (let keep = map row_id (cap_select tie searchId db)
      in db\<lparr>rows := filter (\<lambda>r. \<not> (row_search_id r = searchId \<and> row_id r \<notin> set keep))
                       (rows db)\<rparr>)"

definition addSeenIds ::
  "(nat \<Rightarrow> nat) \<Rightarrow> (seen_row \<Rightarrow> nat) \<Rightarrow> seen_db \<Rightarrow> string \<Rightarrow> string list \<Rightarrow> seen_db" where
  "addSeenIds now tie db searchId newIds =
     (if length newIds = 0 then db
      else enforce_cap tie searchId (insert_batch now searchId newIds db))"

text \<open>
  A history of \<^verbatim>\<open>addSeenIds\<close> calls, each with its clock readings, the order of the database
  among ties, the search id and the ids; the table they leave; and the set of ids ever passed
  for one search.
\<close>

type_synonym seen_call = "(nat \<Rightarrow> nat) \<times> (seen_row \<Rightarrow> nat) \<times> string \<times> string list"

definition run_calls :: "seen_call list \<Rightarrow> seen_db \<Rightarrow> seen_db" where
  "run_calls cs db =
     fold (\<lambda>(now, tie, searchId, newIds) d. addSeenIds now tie d searchId newIds) cs db"

definition inserted :: "seen_call list \<Rightarrow> string \<Rightarrow> string set" where
  "inserted cs searchId =
     set (concat (map (\<lambda>(now, tie, s, newIds). if s = searchId then newIds else []) cs))"

text \<open>
  The part of \<^verbatim>\<open>scanSearch\<close> after \<^verbatim>\<open>fetchAllPages\<close> has returned \<^verbatim>\<open>stats\<close>, on the table
  \<^verbatim>\<open>seen_ids\<close>. Of the saved search it reads the id and the two model lists (the result of
  \<^verbatim>\<open>JSON.parse\<close>). The alerts it returns are snapshots of the new listings and are
  represented by these listings. The writes to the tables \<^verbatim>\<open>execution_logs\<close>, \<^verbatim>\<open>alerts\<close> and
  \<^verbatim>\<open>saved_searches\<close> do not touch \<^verbatim>\<open>seen_ids\<close> and are left out.
\<close>

record saved_search =
  ss_id :: string
  model_whitelist :: "string list"
  model_blacklist :: "string list"

record scan_result =
  newCount :: nat
  totalScanned :: nat
  alerts :: "listing list"

definition scan_after_fetch ::
  "(nat \<Rightarrow> nat) \<Rightarrow> (seen_row \<Rightarrow> nat) \<Rightarrow> seen_db \<Rightarrow> saved_search \<Rightarrow> fetch_stats
     \<Rightarrow> scan_result \<times> seen_db" where
  "scan_after_fetch now tie db search stats =
     (if length (listings stats) = 0 then
        (\<lparr>newCount = 0, totalScanned = 0, alerts = []\<rparr>, db)
      else
        (let seen = getSeenIds db (ss_id search);
             newListings = computeDiff (listings stats) seen;
             newListings = applyModelFilters newListings
                             (model_whitelist search) (model_blacklist search);
             allIds = map list_id (listings stats);
             db = addSeenIds now tie db (ss_id search) allIds
         in (\<lparr>newCount = length newListings, totalScanned = length (listings stats),
              alerts = newListings\<rparr>, db)))"

text \<open>
  \<^verbatim>\<open>scanSearch(env, search)\<close>: the fetch, then the part above; an exception of the fetch leaves
  the table as it was.
\<close>

definition scanSearch ::
  "env \<Rightarrow> (nat \<Rightarrow> string) \<Rightarrow> (nat \<Rightarrow> nat) \<Rightarrow> (seen_row \<Rightarrow> nat) \<Rightarrow> build_cache \<Rightarrow> string
     \<Rightarrow> seen_db \<Rightarrow> saved_search \<Rightarrow> (js_error + scan_result) \<times> seen_db" where
  "scanSearch e toISOString now tie cache urlHost db search =
     (case fetchAllPages e toISOString cache urlHost (ss_id search) MAX_PAGES of
        Inl err \<Rightarrow> (Inl err, db)
      | Inr stats \<Rightarrow>
          (let (res, db') = scan_after_fetch now tie db search stats in (Inr res, db')))"

text \<open>Distinct listing ids for the worked examples: the decimal numbers 1, 11, 111, ...\<close>

definition example_ids :: "nat \<Rightarrow> string list" where
  "example_ids n = map (\<lambda>k. replicate (Suc k) (CHR ''1'')) [0..<n]"

text \<open>
  What the schema guarantees of a table: the primary keys are distinct and below the counter,
  and no two rows have the same search id and listing id.
\<close>

definition db_ok :: "seen_db \<Rightarrow> bool" where
  "db_ok db =
     (distinct (map row_id (rows db))
      \<and> (\<forall>r \<in> set (rows db). row_id r < next_id db)
      \<and> distinct (map (\<lambda>r. (row_search_id r, row_list_id r)) (rows db)))"

text \<open>The clock of a batch whose statements all run in the second \<^verbatim>\<open>t\<close>.\<close>

definition clock_at :: "nat \<Rightarrow> nat \<Rightarrow> nat" where
  "clock_at t k = t"

section \<open>Lemmas about strings and tokens\<close>

lemma is_space_fold_case: "is_space (fold_case c) = is_space c"
  by (auto simp: is_space_def fold_case_def Let_def)

lemma noise_words_no_space: "w \<in> set noise_words \<Longrightarrow> c \<in> set w \<Longrightarrow> \<not> is_space c"
  by (auto simp: noise_words_def is_space_def)

lemma tokens_dropWhile: "tokens (dropWhile is_space s) = tokens s"
  by (subst tokens.simps, subst (2) tokens.simps) simp

lemma tokens_space_Cons: "is_space c \<Longrightarrow> tokens (c # s) = tokens s"
  by (subst tokens.simps, subst (2) tokens.simps) simp

lemma tokens_nonspace:
  "s \<noteq> [] \<Longrightarrow> \<not> is_space (hd s) \<Longrightarrow>
   tokens s = takeWhile (\<lambda>x. \<not> is_space x) s # tokens (dropWhile (\<lambda>x. \<not> is_space x) s)"
  by (subst tokens.simps) (cases s; simp)

lemma tokens_Nil_iff: "tokens s = [] \<longleftrightarrow> (\<forall>c\<in>set s. is_space c)"
proof (cases "dropWhile is_space s")
  case Nil
  have "tokens s = []"
    by (subst tokens.simps) (simp add: Nil)
  moreover have "\<forall>c\<in>set s. is_space c"
    using Nil by (simp add: dropWhile_eq_Nil_conv)
  ultimately show ?thesis by simp
next
  case (Cons c cs)
  then have "\<not> is_space c" "c \<in> set s"
    using hd_dropWhile [of is_space s] set_dropWhileD [of c is_space s] by auto
  with Cons show ?thesis
    by (subst tokens.simps) auto
qed

lemma last_suffix: "suffix xs ys \<Longrightarrow> xs \<noteq> [] \<Longrightarrow> last xs = last ys"
  by (auto simp: suffix_def)

lemma split_ws_tokens:
  "s \<noteq> [] \<Longrightarrow> \<not> is_space (hd s) \<Longrightarrow> \<not> is_space (last s) \<Longrightarrow> split_ws s = tokens s"
proof (induction s rule: split_ws.induct)
  case (1 s)
  let ?d = "dropWhile (\<lambda>c. \<not> is_space c) s"
  show ?case
  proof (cases ?d)
    case Nil
    then have tw: "takeWhile (\<lambda>c. \<not> is_space c) s = s"
      by (simp add: dropWhile_eq_Nil_conv)
    have sp: "split_ws s = [s]"
      by (subst split_ws.simps) (simp add: Nil)
    have t0: "tokens [] = []"
      by (subst tokens.simps) simp
    have "tokens s = [s]"
      by (subst tokens_nonspace [OF "1.prems"(1,2)]) (simp only: Nil tw t0)
    with sp show ?thesis by simp
  next
    case (Cons r rs)
    have sp: "is_space r"
      using hd_dropWhile [of "\<lambda>c. \<not> is_space c" s] Cons by simp
    have suf: "suffix (r # rs) s"
      using Cons suffix_dropWhile [of "\<lambda>c. \<not> is_space c" s] by simp
    then have last_eq: "last (r # rs) = last s"
      by (rule last_suffix) simp
    with sp "1.prems" have rs_ne: "rs \<noteq> []" by auto
    with last_eq have last_rs: "last rs = last s" by simp
    let ?t = "dropWhile is_space rs"
    have t_ne: "?t \<noteq> []"
      using rs_ne last_rs "1.prems"(3) by (auto simp: dropWhile_eq_Nil_conv) (metis last_in_set)
    have hd_t: "\<not> is_space (hd ?t)"
      using t_ne hd_dropWhile [of is_space rs] by simp
    have "suffix ?t rs" by (rule suffix_dropWhile)
    then have last_t: "last ?t = last rs"
      using t_ne by (rule last_suffix)
    have IH: "split_ws ?t = tokens ?t"
      using "1.IH" [OF Cons t_ne hd_t] last_t last_rs "1.prems"(3) by simp
    have "tokens s = takeWhile (\<lambda>c. \<not> is_space c) s # tokens (r # rs)"
      using tokens_nonspace [OF "1.prems"(1,2)] Cons by simp
    also have "tokens (r # rs) = tokens ?t"
      using sp by (simp add: tokens_space_Cons tokens_dropWhile)
    finally show ?thesis
      using Cons IH by (simp add: split_ws.simps [of s])
  qed
qed

lemma tokens_Cons:
  "tokens (c # s) =
     (if is_space c then tokens s
      else (c # takeWhile (\<lambda>x. \<not> is_space x) s) # tokens (dropWhile (\<lambda>x. \<not> is_space x) s))"
  using tokens_space_Cons [of c s] tokens_nonspace [of "c # s"] by simp

lemma tokens_Nil [simp]: "tokens [] = []"
  by (subst tokens.simps) simp

lemma tokens_all_space: "\<forall>c\<in>set ws. is_space c \<Longrightarrow> tokens ws = []"
  by (simp add: tokens_Nil_iff)

lemma tokens_append_spaces:
  "\<forall>c\<in>set ws. is_space c \<Longrightarrow> tokens (xs @ ws) = tokens xs"
proof (induction xs rule: length_induct)
  case (1 xs)
  show ?case
  proof (cases xs)
    case Nil
    with 1 show ?thesis by (simp add: tokens_all_space)
  next
    case (Cons c cs)
    show ?thesis
    proof (cases "is_space c")
      case True
      have "length cs < length xs" using Cons by simp
      with 1 have "tokens (cs @ ws) = tokens cs" by blast
      with True Cons show ?thesis by (simp add: tokens_Cons)
    next
      case False
      let ?ns = "\<lambda>x. \<not> is_space x"
      have tw_ws: "takeWhile ?ns ws = []"
        using "1.prems" by (cases ws) auto
      have dw_ws: "dropWhile ?ns ws = ws"
        using "1.prems" by (cases ws) auto
      show ?thesis
      proof (cases "\<forall>x\<in>set cs. ?ns x")
        case True
        then have e: "takeWhile ?ns (cs @ ws) = cs" "dropWhile ?ns (cs @ ws) = ws"
          "takeWhile ?ns cs = cs" "dropWhile ?ns cs = []"
          by (simp_all add: takeWhile_append2 tw_ws dw_ws)
        have "tokens (xs @ ws) = (c # cs) # tokens ws"
          using False by (simp only: Cons append_Cons tokens_Cons if_False e)
        moreover have "tokens xs = (c # cs) # tokens []"
          using False by (simp only: Cons tokens_Cons if_False e)
        moreover have "tokens ws = []"
          using "1.prems" by (rule tokens_all_space)
        ultimately show ?thesis by simp
      next
        case F2: False
        then obtain x where x: "x \<in> set cs" "\<not> ?ns x" by blast
        then have tw: "takeWhile ?ns (cs @ ws) = takeWhile ?ns cs"
          and dw: "dropWhile ?ns (cs @ ws) = dropWhile ?ns cs @ ws"
          by (simp_all add: takeWhile_append1 dropWhile_append1)
        have "length (dropWhile ?ns cs) < length xs"
          using Cons length_dropWhile_le [of ?ns cs] by simp
        with 1 have "tokens (dropWhile ?ns cs @ ws) = tokens (dropWhile ?ns cs)" by blast
        with False Cons tw dw show ?thesis
          by (simp add: tokens_Cons)
      qed
    qed
  qed
qed

lemma trim_decomp:
  "dropWhile is_space s = trim s @ rev (takeWhile is_space (rev (dropWhile is_space s)))"
proof -
  let ?r = "rev (dropWhile is_space s)"
  have "rev (takeWhile is_space ?r @ dropWhile is_space ?r)
        = rev (dropWhile is_space ?r) @ rev (takeWhile is_space ?r)"
    by (rule rev_append)
  then show ?thesis by (simp add: trim_def)
qed

lemma tokens_trim: "tokens (trim s) = tokens s"
proof -
  have "\<forall>c\<in>set (rev (takeWhile is_space (rev (dropWhile is_space s)))). is_space c"
    by (auto dest: set_takeWhileD)
  then have "tokens (trim s @ rev (takeWhile is_space (rev (dropWhile is_space s)))) = tokens (trim s)"
    by (rule tokens_append_spaces)
  then have "tokens (dropWhile is_space s) = tokens (trim s)"
    using trim_decomp [of s] by simp
  then show ?thesis by (simp add: tokens_dropWhile)
qed

lemma trim_nonblank:
  assumes "\<exists>c\<in>set s. \<not> is_space c"
  shows "trim s \<noteq> []" and "\<not> is_space (hd (trim s))" and "\<not> is_space (last (trim s))"
proof -
  let ?u = "dropWhile is_space s"
  let ?v = "dropWhile is_space (rev ?u)"
  have u_ne: "?u \<noteq> []" using assms by (simp add: dropWhile_eq_Nil_conv)
  then have hd_u: "\<not> is_space (hd ?u)" using hd_dropWhile [of is_space s] by simp
  have "hd ?u \<in> set (rev ?u)" using u_ne by simp
  with hd_u have v_ne: "?v \<noteq> []" by (auto simp: dropWhile_eq_Nil_conv)
  then have hd_v: "\<not> is_space (hd ?v)" using hd_dropWhile [of is_space "rev ?u"] by simp
  have "suffix ?v (rev ?u)" by (rule suffix_dropWhile)
  then have "last ?v = last (rev ?u)" using v_ne by (rule last_suffix)
  then have last_v: "last ?v = hd ?u" using u_ne by (simp add: last_rev)
  show "trim s \<noteq> []" using v_ne by (simp add: trim_def)
  show "\<not> is_space (hd (trim s))" using v_ne last_v hd_u by (simp add: trim_def hd_rev)
  show "\<not> is_space (last (trim s))" using v_ne hd_v by (simp add: trim_def last_rev)
qed

lemma noise_match_iff:
  assumes w: "w \<in> set noise_words"
  shows "noise_match t w \<longleftrightarrow>
           w = map fold_case (takeWhile (\<lambda>x. \<not> is_space x) t)
           \<and> dropWhile (\<lambda>x. \<not> is_space x) t \<noteq> []"
proof
  let ?ns = "\<lambda>x. \<not> is_space x"
  let ?n = "length w"
  assume m: "noise_match t w"
  then have eq: "map fold_case (take ?n t) = w"
    and dr: "drop ?n t \<noteq> []" "is_space (hd (drop ?n t))"
    by (auto simp: noise_match_def split: list.splits)
  from dr have n: "?n < length t" by simp
  have ns: "?ns (t ! i)" if "i < ?n" for i
  proof -
    have "t ! i \<in> set (take ?n t)"
      using that n by (metis in_set_conv_nth length_take min.absorb2 nat_less_le nth_take)
    then have "fold_case (t ! i) \<in> set w"
      using eq by (metis image_eqI set_map)
    then have "\<not> is_space (fold_case (t ! i))"
      by (rule noise_words_no_space [OF w])
    then show ?thesis
      by (simp add: is_space_fold_case)
  qed
  have "t ! ?n = hd (drop ?n t)"
    using n by (simp add: hd_drop_conv_nth)
  with dr have sp: "\<not> ?ns (t ! ?n)" by simp
  have tw: "takeWhile ?ns t = take ?n t"
    by (rule takeWhile_eq_take_P_nth) (use ns sp in auto)
  then have "length (takeWhile ?ns t) = ?n" using n by simp
  then have "dropWhile ?ns t = drop ?n t"
    by (simp add: dropWhile_eq_drop)
  with tw eq dr
  show "w = map fold_case (takeWhile ?ns t) \<and> dropWhile ?ns t \<noteq> []" by simp
next
  let ?ns = "\<lambda>x. \<not> is_space x"
  assume a: "w = map fold_case (takeWhile ?ns t) \<and> dropWhile ?ns t \<noteq> []"
  then have len: "length w = length (takeWhile ?ns t)" by simp
  have tk: "take (length w) t = takeWhile ?ns t"
    unfolding len by (rule takeWhile_eq_take [symmetric])
  have dr: "drop (length w) t = dropWhile ?ns t"
    unfolding len by (rule dropWhile_eq_drop [symmetric])
  have "is_space (hd (dropWhile ?ns t))"
    using a hd_dropWhile [of ?ns t] by simp
  with a tk dr show "noise_match t w"
    by (cases "dropWhile ?ns t") (simp_all add: noise_match_def)
qed

lemma strip_noise_cases:
  "strip_noise t =
     (if is_noise (takeWhile (\<lambda>x. \<not> is_space x) t) \<and> dropWhile (\<lambda>x. \<not> is_space x) t \<noteq> []
      then dropWhile is_space (dropWhile (\<lambda>x. \<not> is_space x) t) else t)"
proof (cases "find (noise_match t) noise_words")
  case None
  then have "\<not> (\<exists>w\<in>set noise_words. noise_match t w)"
    by (simp add: find_None_iff)
  then have "\<not> (is_noise (takeWhile (\<lambda>x. \<not> is_space x) t) \<and> dropWhile (\<lambda>x. \<not> is_space x) t \<noteq> [])"
    using noise_match_iff [of "map fold_case (takeWhile (\<lambda>x. \<not> is_space x) t)" t]
    by (auto simp: is_noise_def)
  with None show ?thesis by (auto simp: strip_noise_def)
next
  case (Some w)
  then have w: "w \<in> set noise_words" "noise_match t w"
    by (auto simp: find_Some_iff)
  then have e: "w = map fold_case (takeWhile (\<lambda>x. \<not> is_space x) t)"
    "dropWhile (\<lambda>x. \<not> is_space x) t \<noteq> []"
    using noise_match_iff [of w t] by auto
  then have "length w = length (takeWhile (\<lambda>x. \<not> is_space x) t)" by simp
  then have "drop (length w) t = dropWhile (\<lambda>x. \<not> is_space x) t"
    by (simp add: dropWhile_eq_drop)
  moreover have "is_noise (takeWhile (\<lambda>x. \<not> is_space x) t)"
    using w(1) e(1) by (simp add: is_noise_def)
  ultimately show ?thesis
    using Some e(2) by (simp add: strip_noise_def)
qed

lemma split_ws_strip_noise:
  assumes t: "t \<noteq> []" "\<not> is_space (hd t)" "\<not> is_space (last t)"
  shows "split_ws (strip_noise t)
         = (case tokens t of [] \<Rightarrow> [] | w # ws \<Rightarrow> if is_noise w \<and> ws \<noteq> [] then ws else w # ws)"
proof -
  let ?ns = "\<lambda>x. \<not> is_space x"
  let ?w = "takeWhile ?ns t" and ?d = "dropWhile ?ns t"
  have tok: "tokens t = ?w # tokens ?d"
    by (rule tokens_nonspace [OF t(1,2)])
  have last_d: "last ?d = last t" if "?d \<noteq> []"
    using suffix_dropWhile [of ?ns t] that by (rule last_suffix)
  have d_iff: "tokens ?d \<noteq> [] \<longleftrightarrow> ?d \<noteq> []"
  proof
    assume "tokens ?d \<noteq> []" then show "?d \<noteq> []"
      by (rule contrapos_nn) (simp only: tokens_Nil)
  next
    assume ne: "?d \<noteq> []"
    then have "last ?d \<in> set ?d" by simp
    with last_d [OF ne] t(3) show "tokens ?d \<noteq> []"
      by (auto simp: tokens_Nil_iff)
  qed
  show ?thesis
  proof (cases "is_noise ?w \<and> ?d \<noteq> []")
    case True
    let ?t' = "dropWhile is_space ?d"
    from True d_iff have "tokens ?t' \<noteq> []" by (simp add: tokens_dropWhile)
    then have ne: "?t' \<noteq> []"
      by (rule contrapos_nn) (simp only: tokens_Nil)
    then have hd': "\<not> is_space (hd ?t')" using hd_dropWhile [of is_space ?d] by simp
    have "last ?t' = last ?d"
      using suffix_dropWhile [of is_space ?d] ne by (rule last_suffix)
    with last_d True t(3) have "\<not> is_space (last ?t')" by simp
    with ne hd' have "split_ws ?t' = tokens ?t'" by (rule split_ws_tokens)
    then have "split_ws (strip_noise t) = tokens ?d"
      using True by (simp add: strip_noise_cases tokens_dropWhile)
    with True d_iff tok show ?thesis by simp
  next
    case False
    then have "strip_noise t = t" by (auto simp: strip_noise_cases)
    then have "split_ws (strip_noise t) = tokens t"
      using split_ws_tokens [OF t] by simp
    with False d_iff tok show ?thesis by auto
  qed
qed

lemma extractModelFromSubject_pick:
  "extractModelFromSubject subj = pick_model (split_ws (strip_noise (trim subj)))"
proof -
  obtain cw where cw: "filter (\<lambda>w. \<not> is_year w \<and> \<not> is_engine w)
                         (split_ws (strip_noise (trim subj))) = cw" by simp
  show ?thesis
    unfolding extractModelFromSubject_def pick_model_def Let_def cw
    by (cases cw; cases "tl cw") auto
qed

lemma find_by_label_total:
  "list_all (\<lambda>p. label p \<noteq> None \<and> prop_value p \<noteq> None) ps \<Longrightarrow>
   \<exists>r. find_by_label pred ps = Inr r \<and> (\<forall>p. r = Some p \<longrightarrow> p \<in> set ps)"
  by (induction ps) auto

lemma parseAd_returns:
  assumes "valid_ad ad" and "properties_well_typed ad"
  shows "\<exists>l. parseAd ad searchId now = Inr l
             \<and> list_id l = String_listId (listId ad) \<and> search_id l = searchId"
proof -
  obtain u where u: "url ad = Some u"
    using assms(1) by (cases "url ad") (auto simp: valid_ad_def)
  have m: "\<exists>m. model_of_properties ad = Inr m"
  proof (cases "properties ad")
    case None
    then show ?thesis by (simp add: model_of_properties_def)
  next
    case (Some ps)
    with assms(2) have wt: "list_all (\<lambda>p. label p \<noteq> None \<and> prop_value p \<noteq> None) ps"
      by (simp add: properties_well_typed_def)
    from find_by_label_total [OF wt, of is_model_label]
    obtain r where "find_by_label is_model_label ps = Inr r" by blast
    with Some show ?thesis
      by (cases r) (simp_all add: model_of_properties_def)
  qed
  have k: "\<exists>k. mileage_of_properties ad = Inr k"
  proof (cases "properties ad")
    case None
    then show ?thesis by (simp add: mileage_of_properties_def)
  next
    case (Some ps)
    with assms(2) have wt: "list_all (\<lambda>p. label p \<noteq> None \<and> prop_value p \<noteq> None) ps"
      by (simp add: properties_well_typed_def)
    from find_by_label_total [OF wt, of is_mileage_label]
    obtain r where r: "find_by_label is_mileage_label ps = Inr r"
      "\<forall>p. r = Some p \<longrightarrow> p \<in> set ps" by blast
    show ?thesis
    proof (cases r)
      case None
      with r Some show ?thesis by (simp add: mileage_of_properties_def)
    next
      case (Some p)
      with r have "p \<in> set ps" by simp
      with wt have "prop_value p \<noteq> None" by (simp add: list_all_iff)
      with r Some \<open>properties ad = Some ps\<close> show ?thesis
        by (auto simp: mileage_of_properties_def)
    qed
  qed
  from m k u show ?thesis
    by (auto simp: parseAd_def Let_def split: option.splits)
qed

lemma set_sublists: "set (concat (map prefixes (suffixes m))) = {u. sublist u m}"
  by (auto simp: sublist_altdef')

lemma includes_ci: "includes_js (toLowerCase m) (toLowerCase t) \<longleftrightarrow> ci_contains m t"
proof
  assume "includes_js (toLowerCase m) (toLowerCase t)"
  then obtain ps ss where "map toLowerCase_char m = ps @ map toLowerCase_char t @ ss"
    by (auto simp: includes_js_def toLowerCase_def sublist_def)
  then have "\<exists>us vs. m = us @ vs \<and> ps = map toLowerCase_char us
                \<and> map toLowerCase_char t @ ss = map toLowerCase_char vs"
    by (simp only: map_eq_append_conv)
  then obtain ps' r where m: "m = ps' @ r" and r: "map toLowerCase_char r = map toLowerCase_char t @ ss"
    by force
  from r have "\<exists>us vs. r = us @ vs \<and> map toLowerCase_char t = map toLowerCase_char us
                \<and> ss = map toLowerCase_char vs"
    by (simp only: map_eq_append_conv)
  then obtain u ss' where "r = u @ ss'" "map toLowerCase_char u = map toLowerCase_char t"
    by force
  with m have "sublist u m" "toLowerCase u = toLowerCase t"
    by (auto simp: toLowerCase_def sublist_def)
  then show "ci_contains m t"
    unfolding ci_contains_def set_sublists by blast
next
  assume "ci_contains m t"
  then obtain u where "sublist u m" "toLowerCase u = toLowerCase t"
    unfolding ci_contains_def set_sublists by blast
  then obtain ps ss where "m = ps @ u @ ss" and "map toLowerCase_char u = map toLowerCase_char t"
    by (auto simp: sublist_def toLowerCase_def)
  then have "map toLowerCase_char m = map toLowerCase_char ps @ map toLowerCase_char t @ map toLowerCase_char ss"
    by simp
  then show "includes_js (toLowerCase m) (toLowerCase t)"
    unfolding includes_js_def toLowerCase_def sublist_def by blast
qed

section \<open>Lemmas about the seen-set table\<close>

lemma db_ok_empty: "db_ok empty_db"
  by (simp add: db_ok_def empty_db_def)

lemma db_ok_insert: "db_ok db \<Longrightarrow> db_ok (insert_or_ignore now sid lid db)"
  by (auto simp: db_ok_def insert_or_ignore_def less_Suc_eq)

lemma present_iff:
  "(\<exists>r \<in> set (rows db). row_search_id r = sid \<and> row_list_id r = lid) \<longleftrightarrow> lid \<in> getSeenIds db sid"
  by (auto simp: getSeenIds_def rows_of_def)

lemma rows_insert_present:
  "lid \<in> getSeenIds db sid \<Longrightarrow> rows (insert_or_ignore now sid lid db) = rows db"
  by (simp add: insert_or_ignore_def present_iff)

lemma rows_insert_absent:
  "lid \<notin> getSeenIds db sid \<Longrightarrow>
   rows (insert_or_ignore now sid lid db)
   = rows db @ [\<lparr>row_id = next_id db, row_search_id = sid, row_list_id = lid, first_seen_at = now\<rparr>]"
  by (simp add: insert_or_ignore_def present_iff)

lemma rows_of_insert_other:
  "s \<noteq> sid \<Longrightarrow> rows_of (insert_or_ignore now sid lid db) s = rows_of db s"
  by (simp add: rows_of_def insert_or_ignore_def)

lemma seen_insert:
  "getSeenIds (insert_or_ignore now sid lid db) sid = insert lid (getSeenIds db sid)"
proof (cases "lid \<in> getSeenIds db sid")
  case True
  then show ?thesis
    by (auto simp: getSeenIds_def rows_of_def rows_insert_present)
next
  case False
  then show ?thesis
    by (simp add: getSeenIds_def rows_of_def rows_insert_absent)
qed

lemma db_ok_batch: "db_ok db \<Longrightarrow> db_ok (insert_batch now sid ids db)"
  by (induction ids arbitrary: now db) (simp_all add: db_ok_insert)

lemma rows_of_batch_other:
  "s \<noteq> sid \<Longrightarrow> rows_of (insert_batch now sid ids db) s = rows_of db s"
  by (induction ids arbitrary: now db) (simp_all add: rows_of_insert_other)

lemma seen_batch:
  "getSeenIds (insert_batch now sid ids db) sid = getSeenIds db sid \<union> set ids"
  by (induction ids arbitrary: now db) (simp_all add: seen_insert)

lemma rows_batch_present:
  "set ids \<subseteq> getSeenIds db sid \<Longrightarrow> rows (insert_batch now sid ids db) = rows db"
proof (induction ids arbitrary: now db)
  case Nil
  then show ?case by simp
next
  case (Cons i ids)
  then have "set ids \<subseteq> getSeenIds (insert_or_ignore (now 0) sid i db) sid"
    by (auto simp: seen_insert)
  from Cons.IH [OF this] Cons.prems show ?case
    by (simp add: rows_insert_present)
qed

lemma upt_Suc_shift: "[0..<Suc n] = 0 # map Suc [0..<n]"
  by (simp add: upt_conv_Cons map_Suc_upt del: upt_Suc)

lemma rows_batch_stamps:
  "\<exists>news. rows (insert_batch now sid ids db) = rows db @ news
     \<and> map (\<lambda>r. (row_search_id r, row_list_id r, first_seen_at r)) news
       = [(sid, ids ! k, now k). k \<leftarrow> [0..<length ids],
            ids ! k \<notin> getSeenIds db sid \<union> set (take k ids)]"
proof (induction ids arbitrary: now db)
  case Nil
  then show ?case by simp
next
  case (Cons i ids)
  let ?f = "\<lambda>r. (row_search_id r, row_list_id r, first_seen_at r)"
  let ?db1 = "insert_or_ignore (now 0) sid i db"
  obtain n1 where n1: "rows ?db1 = rows db @ n1"
    "map ?f n1 = (if i \<notin> getSeenIds db sid then [(sid, i, now 0)] else [])"
  proof (cases "i \<in> getSeenIds db sid")
    case True
    then have "rows ?db1 = rows db @ []" by (simp add: rows_insert_present)
    with True that [of "[]"] show ?thesis by simp
  next
    case False
    then have "rows ?db1 = rows db @ [\<lparr>row_id = next_id db, row_search_id = sid,
                                       row_list_id = i, first_seen_at = now 0\<rparr>]"
      by (rule rows_insert_absent)
    with False that show ?thesis by simp
  qed
  obtain n2 where n2:
    "rows (insert_batch (\<lambda>k. now (Suc k)) sid ids ?db1) = rows ?db1 @ n2"
    "map ?f n2 = [(sid, ids ! k, now (Suc k)). k \<leftarrow> [0..<length ids],
                    ids ! k \<notin> getSeenIds ?db1 sid \<union> set (take k ids)]"
    using Cons.IH by blast
  have rows: "rows (insert_batch now sid (i # ids) db) = rows db @ (n1 @ n2)"
    using n1(1) n2(1) by simp
  have step: "(\<lambda>k. if (i # ids) ! Suc k \<notin> getSeenIds db sid \<union> set (take (Suc k) (i # ids))
                   then [(sid, (i # ids) ! Suc k, now (Suc k))] else [])
              = (\<lambda>k. if ids ! k \<notin> insert i (getSeenIds db sid) \<union> set (take k ids)
                   then [(sid, ids ! k, now (Suc k))] else [])"
    by (rule ext) auto
  have "[(sid, (i # ids) ! k, now k). k \<leftarrow> [0..<length (i # ids)],
            (i # ids) ! k \<notin> getSeenIds db sid \<union> set (take k (i # ids))]
        = (if i \<notin> getSeenIds db sid then [(sid, i, now 0)] else [])
          @ concat (map ((\<lambda>k. if (i # ids) ! k \<notin> getSeenIds db sid \<union> set (take k (i # ids))
                                 then [(sid, (i # ids) ! k, now k)] else []) \<circ> Suc)
                     [0..<length ids])"
    by (simp only: length_Cons upt_Suc_shift list.map concat.simps map_map)
       simp
  also have "\<dots> = map ?f n1 @ map ?f n2"
    unfolding n1(2) n2(2) seen_insert comp_def step ..
  finally have "[(sid, (i # ids) ! k, now k). k \<leftarrow> [0..<length (i # ids)],
            (i # ids) ! k \<notin> getSeenIds db sid \<union> set (take k (i # ids))]
        = map ?f n1 @ map ?f n2" .
  with rows show ?case
    by (intro exI [of _ "n1 @ n2"]) simp
qed

lemma rows_batch_prefix:
  "\<exists>news. rows (insert_batch now sid ids db) = rows db @ news
     \<and> (\<forall>r\<in>set news. row_search_id r = sid \<and> row_list_id r \<in> set ids
           \<and> first_seen_at r \<in> range now)"
proof -
  let ?f = "\<lambda>r. (row_search_id r, row_list_id r, first_seen_at r)"
  obtain news where news: "rows (insert_batch now sid ids db) = rows db @ news"
    "map ?f news = [(sid, ids ! k, now k). k \<leftarrow> [0..<length ids],
                      ids ! k \<notin> getSeenIds db sid \<union> set (take k ids)]"
    using rows_batch_stamps by blast
  have "row_search_id r = sid \<and> row_list_id r \<in> set ids \<and> first_seen_at r \<in> range now"
    if "r \<in> set news" for r
  proof -
    from that have "?f r \<in> set (map ?f news)" by (rule imageI [of r "set news" ?f, simplified set_map [symmetric]])
    then show ?thesis
      unfolding news(2) by auto
  qed
  with news(1) show ?thesis by blast
qed

lemma distinct_list_ids:
  assumes "db_ok db"
  shows "distinct (map row_list_id (rows_of db sid))"
proof -
  have d: "distinct (map (\<lambda>r. (row_search_id r, row_list_id r)) (rows_of db sid))"
    using assms unfolding db_ok_def rows_of_def by (simp add: distinct_map_filter)
  have "map (\<lambda>r. (row_search_id r, row_list_id r)) (rows_of db sid)
        = map (\<lambda>l. (sid, l)) (map row_list_id (rows_of db sid))"
    by (simp add: rows_of_def)
  with d have "distinct (map (\<lambda>l. (sid, l)) (map row_list_id (rows_of db sid)))" by simp
  then show ?thesis by (auto simp: distinct_map inj_on_def)
qed

lemma count_card: "db_ok db \<Longrightarrow> length (rows_of db sid) = card (getSeenIds db sid)"
  using distinct_card [OF distinct_list_ids, of db sid] by (simp add: getSeenIds_def)

lemma finite_seen: "finite (getSeenIds db sid)"
  by (simp add: getSeenIds_def)

lemma set_cap_select: "set (cap_select tie sid db) \<subseteq> set (rows_of db sid)"
  using set_take_subset
    [of SEEN_IDS_CAP "sort_key (\<lambda>r. - int (first_seen_at r)) (sort_key tie (rows_of db sid))"]
  by (simp add: cap_select_def)

lemma cap_select_all:
  "length (rows_of db sid) \<le> SEEN_IDS_CAP \<Longrightarrow> set (cap_select tie sid db) = set (rows_of db sid)"
  by (simp add: cap_select_def)

lemma cap_rows_unfold:
  "rows (enforce_cap tie sid db)
   = filter (\<lambda>r. \<not> (row_search_id r = sid \<and> row_id r \<notin> row_id ` set (cap_select tie sid db)))
       (rows db)"
  by (simp add: enforce_cap_def Let_def)

lemma cap_db_ok: "db_ok db \<Longrightarrow> db_ok (enforce_cap tie sid db)"
  unfolding db_ok_def cap_rows_unfold
  by (auto simp: distinct_map_filter enforce_cap_def Let_def)

lemma cap_other: "s \<noteq> sid \<Longrightarrow> rows_of (enforce_cap tie sid db) s = rows_of db s"
  unfolding rows_of_def cap_rows_unfold
  by (auto simp: filter_filter intro: filter_cong)

lemma cap_subset: "set (rows (enforce_cap tie sid db)) \<subseteq> set (rows db)"
  unfolding cap_rows_unfold by auto

lemma cap_deleted_sid:
  "d \<in> set (rows db) \<Longrightarrow> d \<notin> set (rows (enforce_cap tie sid db)) \<Longrightarrow> row_search_id d = sid"
  unfolding cap_rows_unfold by auto

lemma cap_rows_of_self:
  assumes "db_ok db"
  shows "rows_of (enforce_cap tie sid db) sid
         = filter (\<lambda>r. r \<in> set (cap_select tie sid db)) (rows_of db sid)"
proof -
  let ?T = "cap_select tie sid db"
  have inj: "inj_on row_id (set (rows db))"
    using assms by (simp add: db_ok_def distinct_map)
  have T_sub: "set ?T \<subseteq> set (rows db)"
    using set_cap_select [of tie sid db] by (auto simp: rows_of_def)
  have iff: "row_id r \<in> row_id ` set ?T \<longleftrightarrow> r \<in> set ?T" if "r \<in> set (rows db)" for r
  proof
    assume "row_id r \<in> row_id ` set ?T"
    then obtain t where t: "t \<in> set ?T" "row_id r = row_id t" by blast
    with T_sub that inj have "r = t" by (auto dest: inj_onD)
    with t show "r \<in> set ?T" by simp
  qed blast
  have "rows_of (enforce_cap tie sid db) sid
        = filter (\<lambda>r. row_search_id r = sid \<and> row_id r \<in> row_id ` set ?T) (rows db)"
    unfolding rows_of_def cap_rows_unfold by (auto simp: filter_filter intro: filter_cong)
  also have "\<dots> = filter (\<lambda>r. row_search_id r = sid \<and> r \<in> set ?T) (rows db)"
    using iff by (auto intro: filter_cong)
  also have "\<dots> = filter (\<lambda>r. r \<in> set ?T) (rows_of db sid)"
    unfolding rows_of_def by (auto simp: filter_filter intro: filter_cong)
  finally show ?thesis .
qed

lemma distinct_rows_of: "db_ok db \<Longrightarrow> distinct (rows_of db sid)"
  by (simp add: db_ok_def rows_of_def distinct_map)

lemma cap_count:
  assumes "db_ok db"
  shows "length (rows_of (enforce_cap tie sid db) sid)
         = min SEEN_IDS_CAP (length (rows_of db sid))"
proof -
  let ?S = "rows_of db sid"
  let ?T = "cap_select tie sid db"
  have dS: "distinct ?S" by (rule distinct_rows_of [OF assms])
  then have dT: "distinct ?T" by (simp add: cap_select_def)
  have sub: "set ?T \<subseteq> set ?S" by (rule set_cap_select)
  have "length (filter (\<lambda>r. r \<in> set ?T) ?S) = card ({r. r \<in> set ?T} \<inter> set ?S)"
    by (rule distinct_length_filter [OF dS])
  also have "{r. r \<in> set ?T} \<inter> set ?S = set ?T" using sub by blast
  also have "card (set ?T) = length ?T" by (rule distinct_card [OF dT])
  finally show ?thesis
    by (simp add: cap_rows_of_self [OF assms] cap_select_def)
qed

lemma cap_order:
  assumes ok: "db_ok db"
    and r: "r \<in> set (rows_of (enforce_cap tie sid db) sid)"
    and d: "d \<in> set (rows_of db sid)" "d \<notin> set (rows (enforce_cap tie sid db))"
  shows "first_seen_at d \<le> first_seen_at r"
proof -
  let ?k = "\<lambda>r. - int (first_seen_at r)"
  let ?O = "sort_key ?k (sort_key tie (rows_of db sid))"
  let ?T = "take SEEN_IDS_CAP ?O"
  from r have rT: "r \<in> set ?T"
    by (simp add: cap_rows_of_self [OF ok] cap_select_def)
  have "d \<notin> set (rows_of (enforce_cap tie sid db) sid)"
    using d(2) by (simp add: rows_of_def)
  with d(1) have dT: "d \<notin> set ?T"
    by (simp add: cap_rows_of_self [OF ok] cap_select_def)
  have "set ?O = set (take SEEN_IDS_CAP ?O) \<union> set (drop SEEN_IDS_CAP ?O)"
    by (metis append_take_drop_id set_append)
  with d(1) dT have dD: "d \<in> set (drop SEEN_IDS_CAP ?O)" by auto
  have "sorted (map ?k ?O)" by (rule sorted_sort_key)
  then have "sorted (map ?k ?T @ map ?k (drop SEEN_IDS_CAP ?O))"
    by (simp flip: map_append)
  then have "\<forall>x\<in>set (map ?k ?T). \<forall>y\<in>set (map ?k (drop SEEN_IDS_CAP ?O)). x \<le> y"
    unfolding sorted_append by blast
  with rT dD have "?k r \<le> ?k d" by auto
  then show ?thesis by simp
qed

lemma cap_noop_rows:
  assumes "length (rows_of db sid) \<le> SEEN_IDS_CAP"
  shows "rows (enforce_cap tie sid db) = rows db"
proof -
  have "set (cap_select tie sid db) = set (rows_of db sid)"
    using assms by (rule cap_select_all)
  then have "\<forall>r \<in> set (rows db).
        \<not> (row_search_id r = sid \<and> row_id r \<notin> row_id ` set (cap_select tie sid db))"
    by (auto simp: rows_of_def)
  then show ?thesis
    unfolding cap_rows_unfold by (simp add: filter_id_conv)
qed

lemma cap_noop:
  assumes "length (rows_of db sid) \<le> SEEN_IDS_CAP"
  shows "rows_of (enforce_cap tie sid db) sid = rows_of db sid"
  using cap_noop_rows [OF assms] by (simp add: rows_of_def)

lemma cap_retains:
  assumes ok: "db_ok db"
    and r: "r \<in> set (rows_of db sid)"
    and few: "length (filter (\<lambda>q. q \<noteq> r \<and> first_seen_at r \<le> first_seen_at q) (rows_of db sid))
              < SEEN_IDS_CAP"
  shows "r \<in> set (rows_of (enforce_cap tie sid db) sid)"
proof (rule ccontr)
  let ?K = "rows_of (enforce_cap tie sid db) sid"
  let ?F = "filter (\<lambda>q. q \<noteq> r \<and> first_seen_at r \<le> first_seen_at q) (rows_of db sid)"
  assume out: "r \<notin> set ?K"
  from r have "row_search_id r = sid" by (simp add: rows_of_def)
  with out have out': "r \<notin> set (rows (enforce_cap tie sid db))" by (simp add: rows_of_def)
  have K_sub: "set ?K \<subseteq> set (rows_of db sid)"
    using cap_subset [of tie sid db] by (auto simp: rows_of_def)
  have "set ?K \<subseteq> set ?F"
  proof
    fix q assume q: "q \<in> set ?K"
    with out have "q \<noteq> r" by blast
    moreover have "first_seen_at r \<le> first_seen_at q"
      by (rule cap_order [OF ok q r out'])
    ultimately show "q \<in> set ?F" using q K_sub by auto
  qed
  then have "card (set ?K) \<le> card (set ?F)" by (simp add: card_mono)
  also have "\<dots> \<le> length ?F" by (rule card_length)
  finally have "card (set ?K) < SEEN_IDS_CAP" using few by simp
  moreover have "card (set ?K) = length ?K"
    by (rule distinct_card [OF distinct_rows_of [OF cap_db_ok [OF ok]]])
  ultimately have "length (rows_of db sid) \<le> SEEN_IDS_CAP"
    using cap_count [OF ok, of tie sid] by simp
  then have "?K = rows_of db sid" by (rule cap_noop)
  with r out show False by simp
qed

lemma cap_evicts:
  assumes ok: "db_ok db"
    and r: "r \<in> set (rows_of db sid)"
    and many: "SEEN_IDS_CAP
               \<le> length (filter (\<lambda>q. first_seen_at r < first_seen_at q) (rows_of db sid))"
  shows "r \<notin> set (rows (enforce_cap tie sid db))"
proof
  let ?K = "rows_of (enforce_cap tie sid db) sid"
  let ?F = "filter (\<lambda>q. first_seen_at r < first_seen_at q) (rows_of db sid)"
  assume "r \<in> set (rows (enforce_cap tie sid db))"
  with r have rK: "r \<in> set ?K" by (simp add: rows_of_def)
  have "set ?F \<subseteq> set ?K"
  proof
    fix q assume q: "q \<in> set ?F"
    show "q \<in> set ?K"
    proof (rule ccontr)
      assume "q \<notin> set ?K"
      with q have "q \<notin> set (rows (enforce_cap tie sid db))" by (simp add: rows_of_def)
      with q have "first_seen_at q \<le> first_seen_at r"
        using cap_order [OF ok rK, of q] by simp
      with q show False by simp
    qed
  qed
  moreover have "r \<notin> set ?F" by simp
  ultimately have sub: "insert r (set ?F) \<subseteq> set ?K" using rK by blast
  have "card (insert r (set ?F)) \<le> card (set ?K)"
    by (rule card_mono [OF finite_set sub])
  moreover have "card (insert r (set ?F)) = Suc (length ?F)"
  proof -
    have "distinct ?F" using distinct_rows_of [OF ok, of sid] by (rule distinct_filter)
    then have "card (set ?F) = length ?F" by (rule distinct_card)
    moreover have "card (insert r (set ?F)) = Suc (card (set ?F))"
      using \<open>r \<notin> set ?F\<close> by (intro card_insert_disjoint) simp_all
    ultimately show ?thesis by simp
  qed
  moreover have "card (set ?K) \<le> length ?K" by (rule card_length)
  ultimately show False
    using cap_count [OF ok, of tie sid] many by simp
qed

lemma seen_cap_subset: "getSeenIds (enforce_cap tie sid db) sid \<subseteq> getSeenIds db sid"
  using cap_subset [of tie sid db] by (auto simp: getSeenIds_def rows_of_def)

lemma add_db_ok: "db_ok db \<Longrightarrow> db_ok (addSeenIds now tie db sid ids)"
  by (simp add: addSeenIds_def cap_db_ok db_ok_batch)

lemma add_other: "s \<noteq> sid \<Longrightarrow> rows_of (addSeenIds now tie db sid ids) s = rows_of db s"
  by (simp add: addSeenIds_def cap_other rows_of_batch_other)

lemma add_seen_subset:
  "getSeenIds (addSeenIds now tie db sid ids) sid \<subseteq> getSeenIds db sid \<union> set ids"
  using seen_cap_subset [of tie sid "insert_batch now sid ids db"]
  by (auto simp: addSeenIds_def seen_batch)

lemma add_count:
  assumes "db_ok db" and "length (rows_of db sid) \<le> SEEN_IDS_CAP"
  shows "length (rows_of (addSeenIds now tie db sid ids) sid)
         = min SEEN_IDS_CAP (card (getSeenIds db sid \<union> set ids))"
proof (cases "ids = []")
  case True
  with assms show ?thesis by (simp add: addSeenIds_def count_card)
next
  case False
  have "length (rows_of (insert_batch now sid ids db) sid) = card (getSeenIds db sid \<union> set ids)"
    using count_card [OF db_ok_batch [OF assms(1)], of now sid ids sid] by (simp add: seen_batch)
  with False show ?thesis
    by (simp add: addSeenIds_def cap_count [OF db_ok_batch [OF assms(1)]])
qed

lemma add_seen_noevict:
  assumes "db_ok db" and "card (getSeenIds db sid \<union> set ids) \<le> SEEN_IDS_CAP"
  shows "getSeenIds (addSeenIds now tie db sid ids) sid = getSeenIds db sid \<union> set ids"
proof (cases "ids = []")
  case True
  then show ?thesis by (simp add: addSeenIds_def)
next
  case False
  have "length (rows_of (insert_batch now sid ids db) sid) = card (getSeenIds db sid \<union> set ids)"
    using count_card [OF db_ok_batch [OF assms(1)], of now sid ids sid] by (simp add: seen_batch)
  with assms(2) have "rows_of (enforce_cap tie sid (insert_batch now sid ids db)) sid
                      = rows_of (insert_batch now sid ids db) sid"
    by (simp add: cap_noop)
  then have "getSeenIds (enforce_cap tie sid (insert_batch now sid ids db)) sid
             = getSeenIds (insert_batch now sid ids db) sid"
    by (simp add: getSeenIds_def)
  with False show ?thesis
    by (simp add: addSeenIds_def seen_batch)
qed

lemma add_present_rows:
  assumes "db_ok db" and "length (rows_of db sid) \<le> SEEN_IDS_CAP"
    and "set ids \<subseteq> getSeenIds db sid"
  shows "rows (addSeenIds now tie db sid ids) = rows db"
proof (cases "ids = []")
  case True
  then show ?thesis by (simp add: addSeenIds_def)
next
  case False
  have eq: "rows (insert_batch now sid ids db) = rows db"
    using assms(3) by (rule rows_batch_present)
  then have "length (rows_of (insert_batch now sid ids db) sid) \<le> SEEN_IDS_CAP"
    using assms(2) by (simp add: rows_of_def)
  then have "rows (enforce_cap tie sid (insert_batch now sid ids db))
             = rows (insert_batch now sid ids db)"
    by (rule cap_noop_rows)
  with False eq show ?thesis by (simp add: addSeenIds_def)
qed

lemma run_calls_snoc:
  "run_calls (cs @ [(now, tie, s, ids)]) db = addSeenIds now tie (run_calls cs db) s ids"
  by (simp add: run_calls_def)

lemma run_calls_Cons:
  "run_calls ((now, tie, s, ids) # cs) db = run_calls cs (addSeenIds now tie db s ids)"
  by (simp add: run_calls_def)

lemma inserted_snoc:
  "inserted (cs @ [(now, tie, s, ids)]) sid
   = inserted cs sid \<union> (if s = sid then set ids else {})"
  by (simp add: inserted_def)

lemma inserted_Cons:
  "inserted ((now, tie, s, ids) # cs) sid
   = (if s = sid then set ids else {}) \<union> inserted cs sid"
  by (simp add: inserted_def)

lemma finite_inserted: "finite (inserted cs sid)"
  unfolding inserted_def by (rule finite_set)

lemma run_inv:
  "db_ok (run_calls cs empty_db)
   \<and> (\<forall>sid. length (rows_of (run_calls cs empty_db) sid)
              = min SEEN_IDS_CAP (card (inserted cs sid))
          \<and> (card (inserted cs sid) \<le> SEEN_IDS_CAP
               \<longrightarrow> getSeenIds (run_calls cs empty_db) sid = inserted cs sid))"
proof (induction cs rule: rev_induct)
  case Nil
  show ?case
    by (simp add: run_calls_def db_ok_empty inserted_def)
       (simp add: empty_db_def rows_of_def getSeenIds_def)
next
  case (snoc c cs)
  obtain now tie s ids where c: "c = (now, tie, s, ids)" by (cases c)
  let ?db = "run_calls cs empty_db"
  let ?db' = "addSeenIds now tie ?db s ids"
  from snoc have ok: "db_ok ?db"
    and cnt: "\<And>sid. length (rows_of ?db sid) = min SEEN_IDS_CAP (card (inserted cs sid))"
    and seen: "\<And>sid. card (inserted cs sid) \<le> SEEN_IDS_CAP \<Longrightarrow> getSeenIds ?db sid = inserted cs sid"
    by auto
  have "length (rows_of ?db' sid) = min SEEN_IDS_CAP (card (inserted (cs @ [c]) sid))
        \<and> (card (inserted (cs @ [c]) sid) \<le> SEEN_IDS_CAP
             \<longrightarrow> getSeenIds ?db' sid = inserted (cs @ [c]) sid)" for sid
  proof (cases "s = sid")
    case False
    then have "rows_of ?db' sid = rows_of ?db sid"
      by (simp add: add_other)
    moreover from this have "getSeenIds ?db' sid = getSeenIds ?db sid"
      by (simp add: getSeenIds_def)
    moreover have "inserted (cs @ [c]) sid = inserted cs sid"
      using False by (simp add: c inserted_snoc)
    ultimately show ?thesis using cnt seen by simp
  next
    case True
    let ?H = "inserted cs sid"
    have H': "inserted (cs @ [c]) sid = ?H \<union> set ids"
      using True by (simp add: c inserted_snoc)
    have le: "length (rows_of ?db sid) \<le> SEEN_IDS_CAP" using cnt [of sid] by simp
    have count': "length (rows_of ?db' sid) = min SEEN_IDS_CAP (card (getSeenIds ?db sid \<union> set ids))"
      using add_count [OF ok le] True by simp
    show ?thesis
    proof (cases "card ?H \<le> SEEN_IDS_CAP")
      case small: True
      then have eq: "getSeenIds ?db sid = ?H" by (rule seen)
      have "card (?H \<union> set ids) \<le> SEEN_IDS_CAP \<Longrightarrow> getSeenIds ?db' sid = ?H \<union> set ids"
        using add_seen_noevict [OF ok, of sid ids now tie] eq True by simp
      with count' eq H' show ?thesis by simp
    next
      case big: False
      have "card (getSeenIds ?db sid) = SEEN_IDS_CAP"
        using cnt [of sid] big count_card [OF ok, of sid] by simp
      moreover have "card (getSeenIds ?db sid) \<le> card (getSeenIds ?db sid \<union> set ids)"
        by (rule card_mono) (simp_all add: finite_seen)
      moreover have "card ?H \<le> card (?H \<union> set ids)"
        by (rule card_mono) (simp_all add: finite_inserted)
      ultimately show ?thesis
        using big count' H' by simp
    qed
  qed
  with add_db_ok [OF ok] show ?case
    by (simp add: c run_calls_snoc)
qed

lemma applyModelFilters_subset: "set (applyModelFilters ls wl bl) \<subseteq> set ls"
  by (auto simp: applyModelFilters_def Let_def)

lemma add_nonempty:
  "ids \<noteq> [] \<Longrightarrow>
   addSeenIds now tie db sid ids = enforce_cap tie sid (insert_batch now sid ids db)"
  by (simp add: addSeenIds_def)

lemma length_example_ids: "length (example_ids n) = n"
  by (simp add: example_ids_def)

lemma distinct_example_ids: "distinct (example_ids n)"
proof -
  have "inj_on (\<lambda>k. replicate (Suc k) (CHR ''1'')) A" for A :: "nat set"
    by (rule inj_onI) (metis length_replicate nat.inject)
  then show ?thesis
    by (simp add: example_ids_def distinct_map)
qed

lemma card_example_ids: "card (set (example_ids n)) = n"
  using distinct_card [OF distinct_example_ids, of n] by (simp add: length_example_ids)

lemma two_not_example_id: "''2'' \<notin> set (example_ids n)"
  by (auto simp: example_ids_def)

lemma add_retains:
  assumes ok: "db_ok db"
    and r: "r \<in> set (rows_of db sid)"
    and inv: "\<forall>q \<in> set (rows_of db sid).
                q \<noteq> r \<and> first_seen_at r \<le> first_seen_at q \<longrightarrow> row_list_id q \<in> B"
    and ids: "s = sid \<Longrightarrow> set ids - {row_list_id r} \<subseteq> B"
    and B: "finite B" "card B < SEEN_IDS_CAP"
  shows "r \<in> set (rows_of (addSeenIds now tie db s ids) sid)
       \<and> (\<forall>q \<in> set (rows_of (addSeenIds now tie db s ids) sid).
            q \<noteq> r \<and> first_seen_at r \<le> first_seen_at q \<longrightarrow> row_list_id q \<in> B)"
proof (cases "s = sid \<and> ids \<noteq> []")
  case False
  have "rows_of (addSeenIds now tie db s ids) sid = rows_of db sid"
  proof (cases "s = sid")
    case True
    with False show ?thesis by (simp add: addSeenIds_def)
  next
    case False
    then show ?thesis by (simp add: add_other)
  qed
  with r inv show ?thesis by simp
next
  case True
  let ?mid = "insert_batch now sid ids db"
  let ?P = "\<lambda>q. q \<noteq> r \<and> first_seen_at r \<le> first_seen_at q"
  let ?F = "filter ?P (rows_of ?mid sid)"
  have okm: "db_ok ?mid" by (rule db_ok_batch [OF ok])
  obtain news where news: "rows ?mid = rows db @ news"
    "\<forall>q\<in>set news. row_search_id q = sid \<and> row_list_id q \<in> set ids
        \<and> first_seen_at q \<in> range now"
    using rows_batch_prefix by blast
  have rm: "r \<in> set (rows_of ?mid sid)"
    using r news(1) by (simp add: rows_of_def)
  have inj: "inj_on row_list_id (set (rows_of ?mid sid))"
    using distinct_list_ids [OF okm, of sid] by (simp add: distinct_map)
  have invm: "row_list_id q \<in> B" if q: "q \<in> set (rows_of ?mid sid)" "?P q" for q
  proof (cases "q \<in> set (rows_of db sid)")
    case True
    with inv q(2) show ?thesis by blast
  next
    case False
    with q(1) news(1) have "q \<in> set news" by (auto simp: rows_of_def)
    with news(2) have "row_list_id q \<in> set ids" by blast
    moreover have "row_list_id q \<noteq> row_list_id r"
      using inj q rm by (auto dest: inj_onD)
    ultimately show ?thesis using ids True by blast
  qed
  have "distinct (map row_list_id ?F)"
    using distinct_list_ids [OF okm, of sid] by (rule distinct_map_filter)
  then have "length ?F = card (row_list_id ` set ?F)"
    using distinct_card [of "map row_list_id ?F"] by simp
  also have "\<dots> \<le> card B"
    using invm by (intro card_mono [OF B(1)]) auto
  finally have few: "length ?F < SEEN_IDS_CAP" using B(2) by simp
  have kept: "r \<in> set (rows_of (enforce_cap tie sid ?mid) sid)"
    by (rule cap_retains [OF okm rm few])
  have "set (rows_of (enforce_cap tie sid ?mid) sid) \<subseteq> set (rows_of ?mid sid)"
    using cap_subset [of tie sid ?mid] by (auto simp: rows_of_def)
  with invm have "\<forall>q \<in> set (rows_of (enforce_cap tie sid ?mid) sid). ?P q \<longrightarrow> row_list_id q \<in> B"
    by blast
  with kept True show ?thesis by (simp add: addSeenIds_def)
qed

lemma run_retains:
  assumes "db_ok db"
    and "r \<in> set (rows_of db sid)"
    and "\<forall>q \<in> set (rows_of db sid).
           q \<noteq> r \<and> first_seen_at r \<le> first_seen_at q \<longrightarrow> row_list_id q \<in> B"
    and "inserted cs sid - {row_list_id r} \<subseteq> B"
    and "finite B" "card B < SEEN_IDS_CAP"
  shows "r \<in> set (rows_of (run_calls cs db) sid)"
  using assms
proof (induction cs arbitrary: db)
  case Nil
  then show ?case by (simp add: run_calls_def)
next
  case (Cons c cs)
  obtain now tie s ids where c: "c = (now, tie, s, ids)" by (cases c)
  let ?db1 = "addSeenIds now tie db s ids"
  have ids: "s = sid \<Longrightarrow> set ids - {row_list_id r} \<subseteq> B"
    using Cons.prems(4) by (auto simp: c inserted_Cons)
  have rest: "inserted cs sid - {row_list_id r} \<subseteq> B"
    using Cons.prems(4) by (auto simp: c inserted_Cons)
  from add_retains [OF Cons.prems(1,2,3) ids Cons.prems(5,6), where now = now and tie = tie]
  have r1: "r \<in> set (rows_of ?db1 sid)"
    and inv1: "\<forall>q \<in> set (rows_of ?db1 sid).
                 q \<noteq> r \<and> first_seen_at r \<le> first_seen_at q \<longrightarrow> row_list_id q \<in> B"
    by simp_all
  have ok1: "db_ok ?db1" by (rule add_db_ok [OF Cons.prems(1)])
  from Cons.IH [OF ok1 r1 inv1 rest Cons.prems(5,6)]
  show ?case by (simp add: c run_calls_Cons)
qed

lemma run_calls_append: "run_calls (cs @ cs') db = run_calls cs' (run_calls cs db)"
  by (simp add: run_calls_def)
section \<open>Lemmas about the scan orchestrator\<close>

lemma fetchPage_nonempty_200: "fetchPage r = (ads, status) \<Longrightarrow> ads \<noteq> [] \<Longrightarrow> status = 200"
  by (auto simp: fetchPage_def split: http_response.splits page_body.splits option.splits if_splits)

lemma fetchPage_valid: "fetchPage r = (ads, status) \<Longrightarrow> ad \<in> set ads \<Longrightarrow> valid_ad ad"
  by (auto simp: fetchPage_def split: http_response.splits page_body.splits option.splits if_splits)

lemma add_ads_total:
  "\<forall>ad\<in>set ads. valid_ad ad \<and> properties_well_typed ad \<Longrightarrow>
   \<exists>new. add_ads searchId now ads (ls, seen)
            = Inr (ls @ new, seen \<union> (\<lambda>ad. String_listId (listId ad)) ` set ads)
        \<and> list_id ` set new = (\<lambda>ad. String_listId (listId ad)) ` set ads - seen
        \<and> distinct (map list_id new)"
proof (induction ads arbitrary: ls seen)
  case Nil
  then show ?case by simp
next
  case (Cons ad ads)
  let ?lid = "String_listId (listId ad)"
  let ?ids = "(\<lambda>ad. String_listId (listId ad)) ` set ads"
  show ?case
  proof (cases "?lid \<in> seen")
    case True
    from Cons.IH [of ls seen] Cons.prems
    obtain new where "add_ads searchId now ads (ls, seen) = Inr (ls @ new, seen \<union> ?ids)"
      "list_id ` set new = ?ids - seen" "distinct (map list_id new)" by auto
    with True show ?thesis
      by (intro exI [of _ new]) (auto simp: insert_absorb)
  next
    case False
    from Cons.prems parseAd_returns [of ad searchId now]
    obtain l where l: "parseAd ad searchId now = Inr l" "list_id l = ?lid" by auto
    from Cons.IH [of "ls @ [l]" "insert ?lid seen"] Cons.prems
    obtain new where new: "add_ads searchId now ads (ls @ [l], insert ?lid seen)
          = Inr ((ls @ [l]) @ new, insert ?lid seen \<union> ?ids)"
      "list_id ` set new = ?ids - insert ?lid seen" "distinct (map list_id new)" by auto
    have "add_ads searchId now (ad # ads) (ls, seen)
          = Inr (ls @ (l # new), seen \<union> (\<lambda>ad. String_listId (listId ad)) ` set (ad # ads))"
      using False l new(1) by simp
    moreover have "list_id ` set (l # new)
          = (\<lambda>ad. String_listId (listId ad)) ` set (ad # ads) - seen"
      using False l(2) new(2) by auto
    moreover have "distinct (map list_id (l # new))"
      using l(2) new(2,3) by auto
    ultimately show ?thesis by blast
  qed
qed

lemma list_ex_snd: "list_ex (\<lambda>(p, fid). fid = v) m \<longleftrightarrow> v \<in> snd ` set m"
  by (induction m) auto

lemma iteration_eq:
  assumes "fetchPage (page_response e (Suc (requestsCount st)) (buildId st) (page st)) = (ads, status)"
  shows "iteration e tz urlHost searchId st =
     (if status = 404 \<and> retryCount st < MAX_RETRIES then
        refresh_build_id e urlHost (st\<lparr>requestsCount := Suc (requestsCount st)\<rparr>)
      else if status = 404 then
        Break (st\<lparr>requestsCount := Suc (requestsCount st), stopReason := Error,
                  errorMessage := Some ''Page 404 (likely buildId) after retry''\<rparr>)
      else if status \<noteq> 200 then
        Break (st\<lparr>requestsCount := Suc (requestsCount st), stopReason := Error,
                  errorMessage := Some (''HTTP '' @ String_nat status)\<rparr>)
      else if ads = [] then
        Break (st\<lparr>requestsCount := Suc (requestsCount st),
                  stopReason := (if page st = 1 then Empty else Completed)\<rparr>)
      else accept_page e tz searchId ads (st\<lparr>requestsCount := Suc (requestsCount st)\<rparr>))"
  using assms by (simp add: iteration_def Let_def)

lemma refresh_fresh:
  assumes "html_build_id e (requestsCount st) = Some b" and "b \<noteq> []" and "b \<noteq> buildId st"
  shows "refresh_build_id e urlHost st
         = Continue (st\<lparr>requestsCount := Suc (requestsCount st), buildId := b,
                         buildIdCache := (buildIdCache st)(urlHost \<mapsto> (b, clock e (Suc (requestsCount st)))),
                         page := page st - 1, retryCount := Suc (retryCount st)\<rparr>)"
  using assms by (simp add: refresh_build_id_def Let_def)

lemma refresh_failed:
  assumes "html_build_id e (requestsCount st) = None
         \<or> html_build_id e (requestsCount st) = Some []
         \<or> html_build_id e (requestsCount st) = Some (buildId st)"
  shows "refresh_build_id e urlHost st
         = Break (st\<lparr>requestsCount := Suc (requestsCount st), stopReason := Error,
                      errorMessage := Some ''BuildId expired and refresh failed''\<rparr>)"
  using assms by (auto simp: refresh_build_id_def Let_def)

lemma accept_loop:
  assumes "String_listId (listId (ads ! 0)) \<in> snd ` set (pageFirstIds st)"
  shows "accept_page e tz searchId ads st = Break (st\<lparr>stopReason := Loop\<rparr>)"
  using assms by (simp add: accept_page_def Let_def list_ex_snd)

lemma accept_ok:
  assumes "String_listId (listId (ads ! 0)) \<notin> snd ` set (pageFirstIds st)"
    and "add_ads searchId (tz (clock e (requestsCount st))) ads (acc_listings st, seenIds st)
         = Inr (ls, seen)"
  shows "accept_page e tz searchId ads st
         = Continue (st\<lparr>pageFirstIds := AList.update (page st) (String_listId (listId (ads ! 0)))
                                            (pageFirstIds st),
                         acc_listings := ls, seenIds := seen\<rparr>)"
  using assms by (simp add: accept_page_def Let_def list_ex_snd)

lemma refresh_Continue:
  "refresh_build_id e urlHost st = Continue st' \<Longrightarrow>
   retryCount st' = retryCount st + 1 \<and> page st' = page st - 1
   \<and> requestsCount st' = requestsCount st + 1 \<and> pageFirstIds st' = pageFirstIds st"
  by (auto simp: refresh_build_id_def Let_def split: option.splits if_splits)

lemma refresh_Break:
  "refresh_build_id e urlHost st = Break st' \<Longrightarrow>
   retryCount st' = retryCount st \<and> page st' = page st
   \<and> requestsCount st' = requestsCount st + 1 \<and> pageFirstIds st' = pageFirstIds st"
  by (auto simp: refresh_build_id_def Let_def split: option.splits if_splits)

lemma accept_Continue:
  "accept_page e tz searchId ads st = Continue st' \<Longrightarrow>
   retryCount st' = retryCount st \<and> page st' = page st
   \<and> requestsCount st' = requestsCount st
   \<and> pageFirstIds st' = AList.update (page st) (String_listId (listId (ads ! 0))) (pageFirstIds st)
   \<and> String_listId (listId (ads ! 0)) \<notin> snd ` set (pageFirstIds st)"
  by (auto simp: accept_page_def Let_def list_ex_snd split: if_splits sum.splits)

lemma accept_Break:
  "accept_page e tz searchId ads st = Break st' \<Longrightarrow> st' = st\<lparr>stopReason := Loop\<rparr>"
  by (auto simp: accept_page_def Let_def split: if_splits sum.splits)


lemma iteration_Continue:
  assumes "iteration e tz urlHost searchId st = Continue st'"
  shows "(retryCount st' = retryCount st \<and> page st' = page st
            \<and> requestsCount st' = requestsCount st + 1
            \<and> (\<exists>v. pageFirstIds st' = AList.update (page st) v (pageFirstIds st)
                  \<and> v \<notin> snd ` set (pageFirstIds st)))
         \<or> (retryCount st < MAX_RETRIES \<and> retryCount st' = retryCount st + 1
            \<and> page st' = page st - 1 \<and> requestsCount st' = requestsCount st + 2
            \<and> pageFirstIds st' = pageFirstIds st)"
proof -
  let ?st1 = "st\<lparr>requestsCount := Suc (requestsCount st)\<rparr>"
  obtain ads status where
    fp: "fetchPage (page_response e (Suc (requestsCount st)) (buildId st) (page st)) = (ads, status)"
    by (cases "fetchPage (page_response e (Suc (requestsCount st)) (buildId st) (page st))")
  note eq = iteration_eq [OF fp, of tz urlHost searchId]
  consider (retry) "status = 404" "retryCount st < MAX_RETRIES"
    | (spent) "status = 404" "\<not> retryCount st < MAX_RETRIES"
    | (err) "status \<noteq> 404" "status \<noteq> 200"
    | (empty) "status = 200" "ads = []"
    | (page) "status = 200" "ads \<noteq> []"
    by fastforce
  then show ?thesis
  proof cases
    case retry
    with eq assms have "refresh_build_id e urlHost ?st1 = Continue st'" by simp
    from refresh_Continue [OF this] retry(2) show ?thesis by simp
  next
    case spent
    with eq assms show ?thesis by simp
  next
    case err
    with eq assms show ?thesis by simp
  next
    case empty
    with eq assms show ?thesis by simp
  next
    case page
    with eq assms have "accept_page e tz searchId ads ?st1 = Continue st'" by simp
    from accept_Continue [OF this] show ?thesis by auto
  qed
qed

lemma iteration_Break:
  assumes "iteration e tz urlHost searchId st = Break st'"
  shows "retryCount st' = retryCount st \<and> page st' = page st
         \<and> pageFirstIds st' = pageFirstIds st
         \<and> (requestsCount st' = requestsCount st + 1
            \<or> (retryCount st < MAX_RETRIES \<and> requestsCount st' = requestsCount st + 2))"
proof -
  let ?st1 = "st\<lparr>requestsCount := Suc (requestsCount st)\<rparr>"
  obtain ads status where
    fp: "fetchPage (page_response e (Suc (requestsCount st)) (buildId st) (page st)) = (ads, status)"
    by (cases "fetchPage (page_response e (Suc (requestsCount st)) (buildId st) (page st))")
  note eq = iteration_eq [OF fp, of tz urlHost searchId]
  consider (retry) "status = 404" "retryCount st < MAX_RETRIES"
    | (spent) "status = 404" "\<not> retryCount st < MAX_RETRIES"
    | (err) "status \<noteq> 404" "status \<noteq> 200"
    | (empty) "status = 200" "ads = []"
    | (page) "status = 200" "ads \<noteq> []"
    by fastforce
  then show ?thesis
  proof cases
    case retry
    with eq assms have "refresh_build_id e urlHost ?st1 = Break st'" by simp
    from refresh_Break [OF this] retry(2) show ?thesis by simp
  next
    case spent
    with eq assms have "st' = ?st1\<lparr>stopReason := Error,
                  errorMessage := Some ''Page 404 (likely buildId) after retry''\<rparr>" by simp
    then show ?thesis by simp
  next
    case err
    with eq assms have "st' = ?st1\<lparr>stopReason := Error,
                  errorMessage := Some (''HTTP '' @ String_nat status)\<rparr>" by simp
    then show ?thesis by simp
  next
    case empty
    with eq assms have "st' = ?st1\<lparr>stopReason := (if page st = 1 then Empty else Completed)\<rparr>"
      by simp
    then show ?thesis by simp
  next
    case page
    with eq assms have "accept_page e tz searchId ads ?st1 = Break st'" by simp
    from accept_Break [OF this] show ?thesis by simp
  qed
qed

lemma snd_set_update: "snd ` set (AList.update k v m) \<subseteq> insert v (snd ` set m)"
  by (induction m) auto

lemma distinct_snd_update:
  "distinct (map snd m) \<Longrightarrow> v \<notin> snd ` set m \<Longrightarrow> distinct (map snd (AList.update k v m))"
proof (induction m)
  case Nil
  then show ?case by simp
next
  case (Cons a m)
  from Cons.prems have "snd a \<notin> snd ` set (AList.update k v m)"
    using snd_set_update [of k v m] by auto
  with Cons show ?case by auto
qed

lemma update_fresh: "k \<notin> fst ` set m \<Longrightarrow> AList.update k v m = m @ [(k, v)]"
  by (induction m) auto

lemma fetch_loop_exit:
  "\<not> page st \<le> maxPages \<Longrightarrow> fetch_loop e tz urlHost searchId maxPages st = Inr st"
  by (simp add: fetch_loop.simps [of _ _ _ _ _ st])

lemma fetch_loop_Continue:
  "page st \<le> maxPages \<Longrightarrow> iteration e tz urlHost searchId st = Continue st1 \<Longrightarrow>
   fetch_loop e tz urlHost searchId maxPages st
   = fetch_loop e tz urlHost searchId maxPages (st1\<lparr>page := page st1 + 1\<rparr>)"
  by (simp add: fetch_loop.simps [of _ _ _ _ _ st])

lemma fetch_loop_Break:
  "page st \<le> maxPages \<Longrightarrow> iteration e tz urlHost searchId st = Break st1 \<Longrightarrow>
   fetch_loop e tz urlHost searchId maxPages st = Inr st1"
  by (simp add: fetch_loop.simps [of _ _ _ _ _ st])

lemma fetch_loop_Throw:
  "page st \<le> maxPages \<Longrightarrow> iteration e tz urlHost searchId st = Throw err \<Longrightarrow>
   fetch_loop e tz urlHost searchId maxPages st = Inl err"
  by (simp add: fetch_loop.simps [of _ _ _ _ _ st])

lemma loop_invariants:
  "fetch_loop e tz urlHost searchId maxPages st = Inr st' \<Longrightarrow>
   retryCount st \<le> MAX_RETRIES \<Longrightarrow> distinct (map snd (pageFirstIds st)) \<Longrightarrow>
   retryCount st' \<le> MAX_RETRIES
   \<and> distinct (map snd (pageFirstIds st'))
   \<and> requestsCount st' \<le> requestsCount st + nat (maxPages + 1 - page st)
                          + 2 * (MAX_RETRIES - retryCount st)"
proof (induction e tz urlHost searchId maxPages st rule: fetch_loop.induct)
  case (1 e tz urlHost searchId maxPages st)
  show ?case
  proof (cases "page st \<le> maxPages")
    case False
    with "1.prems" show ?thesis by (simp add: fetch_loop_exit)
  next
    case True
    show ?thesis
    proof (cases "iteration e tz urlHost searchId st")
      case (Continue st1)
      with True "1.prems"(1)
      have run: "fetch_loop e tz urlHost searchId maxPages (st1\<lparr>page := page st1 + 1\<rparr>) = Inr st'"
        by (simp add: fetch_loop_Continue)
      note it = iteration_Continue [OF Continue]
      have r1: "retryCount (st1\<lparr>page := page st1 + 1\<rparr>) \<le> MAX_RETRIES"
        using it "1.prems"(2) by auto
      have d1: "distinct (map snd (pageFirstIds (st1\<lparr>page := page st1 + 1\<rparr>)))"
        using it "1.prems"(3) by (auto simp: distinct_snd_update)
      from "1.IH" [OF True Continue run r1 d1]
      have IH: "retryCount st' \<le> MAX_RETRIES" "distinct (map snd (pageFirstIds st'))"
        "requestsCount st' \<le> requestsCount st1 + nat (maxPages + 1 - (page st1 + 1))
                          + 2 * (MAX_RETRIES - retryCount st1)" by simp_all
      from it True IH(3) "1.prems"(2)
      have "requestsCount st' \<le> requestsCount st + nat (maxPages + 1 - page st)
                          + 2 * (MAX_RETRIES - retryCount st)"
        by (auto simp: MAX_RETRIES_def)
      with IH(1,2) show ?thesis by simp
    next
      case (Break st1)
      with True "1.prems"(1) have "st' = st1" by (simp add: fetch_loop_Break)
      with iteration_Break [OF Break] True "1.prems"(2,3) show ?thesis
        by (auto simp: MAX_RETRIES_def)
    next
      case (Throw err)
      with True "1.prems"(1) show ?thesis by (simp add: fetch_loop_Throw)
    qed
  qed
qed


lemma loop_keys:
  "fetch_loop e tz urlHost searchId maxPages st = Inr st' \<Longrightarrow>
   distinct (map fst (pageFirstIds st)) \<Longrightarrow> \<forall>k \<in> fst ` set (pageFirstIds st). k < page st \<Longrightarrow>
   distinct (map fst (pageFirstIds st')) \<and> (\<forall>k \<in> fst ` set (pageFirstIds st'). k < page st')"
proof (induction e tz urlHost searchId maxPages st rule: fetch_loop.induct)
  case (1 e tz urlHost searchId maxPages st)
  show ?case
  proof (cases "page st \<le> maxPages")
    case False
    with "1.prems" show ?thesis by (simp add: fetch_loop_exit)
  next
    case True
    show ?thesis
    proof (cases "iteration e tz urlHost searchId st")
      case (Continue st1)
      with True "1.prems"(1)
      have run: "fetch_loop e tz urlHost searchId maxPages (st1\<lparr>page := page st1 + 1\<rparr>) = Inr st'"
        by (simp add: fetch_loop_Continue)
      note it = iteration_Continue [OF Continue]
      have d1: "distinct (map fst (pageFirstIds (st1\<lparr>page := page st1 + 1\<rparr>)))"
        using it "1.prems"(2) by (auto simp: distinct_update)
      have k1: "\<forall>k \<in> fst ` set (pageFirstIds (st1\<lparr>page := page st1 + 1\<rparr>)).
                  k < page (st1\<lparr>page := page st1 + 1\<rparr>)"
      proof -
        from it show ?thesis
        proof (elim disjE conjE exE)
          fix v
          assume a: "page st1 = page st"
            "pageFirstIds st1 = AList.update (page st) v (pageFirstIds st)"
          have "fst ` set (pageFirstIds st1) = insert (page st) (fst ` set (pageFirstIds st))"
            by (simp add: a(2) dom_update)
          with "1.prems"(3) a(1) show ?thesis by (simp add: less_imp_le)
        next
          assume a: "page st1 = page st - 1" "pageFirstIds st1 = pageFirstIds st"
          with "1.prems"(3) show ?thesis by simp
        qed
      qed
      from "1.IH" [OF True Continue run d1 k1] show ?thesis .
    next
      case (Break st1)
      with True "1.prems"(1) have "st' = st1" by (simp add: fetch_loop_Break)
      with iteration_Break [OF Break] "1.prems"(2,3) show ?thesis by simp
    next
      case (Throw err)
      with True "1.prems"(1) show ?thesis by (simp add: fetch_loop_Throw)
    qed
  qed
qed
lemma loop_refresh_retry:
  assumes "page st \<le> maxPages"
    and "snd (fetchPage (page_response e (requestsCount st + 1) (buildId st) (page st))) = 404"
    and "retryCount st = 0"
    and "html_build_id e (requestsCount st + 1) = Some b" and "b \<noteq> []" and "b \<noteq> buildId st"
  shows "fetch_loop e tz urlHost searchId maxPages st
         = fetch_loop e tz urlHost searchId maxPages
             (st\<lparr>requestsCount := requestsCount st + 2, buildId := b,
                 buildIdCache := (buildIdCache st)(urlHost \<mapsto> (b, clock e (requestsCount st + 2))),
                 page := page st, retryCount := 1\<rparr>)"
proof -
  obtain ads where
    fp: "fetchPage (page_response e (Suc (requestsCount st)) (buildId st) (page st)) = (ads, 404)"
    using assms(2) by (cases "fetchPage (page_response e (Suc (requestsCount st)) (buildId st) (page st))") auto
  have "iteration e tz urlHost searchId st
        = refresh_build_id e urlHost (st\<lparr>requestsCount := Suc (requestsCount st)\<rparr>)"
    using assms(3) by (simp add: iteration_eq [OF fp] MAX_RETRIES_def)
  also have "\<dots> = Continue (st\<lparr>requestsCount := Suc (Suc (requestsCount st)), buildId := b,
                 buildIdCache := (buildIdCache st)(urlHost \<mapsto> (b, clock e (Suc (Suc (requestsCount st))))),
                 page := page st - 1, retryCount := Suc (retryCount st)\<rparr>)"
    using assms(4,5,6) by (subst refresh_fresh [where b = b]) simp_all
  finally show ?thesis
    using assms(1,3) by (simp add: fetch_loop_Continue)
qed

lemma loop_refresh_failed:
  assumes "page st \<le> maxPages"
    and "snd (fetchPage (page_response e (requestsCount st + 1) (buildId st) (page st))) = 404"
    and "retryCount st = 0"
    and "html_build_id e (requestsCount st + 1) = None
         \<or> html_build_id e (requestsCount st + 1) = Some []
         \<or> html_build_id e (requestsCount st + 1) = Some (buildId st)"
  shows "fetch_loop e tz urlHost searchId maxPages st
         = Inr (st\<lparr>requestsCount := requestsCount st + 2, stopReason := Error,
                    errorMessage := Some ''BuildId expired and refresh failed''\<rparr>)"
proof -
  obtain ads where
    fp: "fetchPage (page_response e (Suc (requestsCount st)) (buildId st) (page st)) = (ads, 404)"
    using assms(2) by (cases "fetchPage (page_response e (Suc (requestsCount st)) (buildId st) (page st))") auto
  have "iteration e tz urlHost searchId st
        = refresh_build_id e urlHost (st\<lparr>requestsCount := Suc (requestsCount st)\<rparr>)"
    using assms(3) by (simp add: iteration_eq [OF fp] MAX_RETRIES_def)
  also have "\<dots> = Break (st\<lparr>requestsCount := Suc (Suc (requestsCount st)), stopReason := Error,
                    errorMessage := Some ''BuildId expired and refresh failed''\<rparr>)"
    using assms(4) by (subst refresh_failed) simp_all
  finally show ?thesis
    using assms(1) by (simp add: fetch_loop_Break)
qed

lemma loop_retry_spent:
  assumes "page st \<le> maxPages"
    and "snd (fetchPage (page_response e (requestsCount st + 1) (buildId st) (page st))) = 404"
    and "retryCount st \<ge> 1"
  shows "fetch_loop e tz urlHost searchId maxPages st
         = Inr (st\<lparr>requestsCount := requestsCount st + 1, stopReason := Error,
                    errorMessage := Some ''Page 404 (likely buildId) after retry''\<rparr>)"
proof -
  obtain ads where
    fp: "fetchPage (page_response e (Suc (requestsCount st)) (buildId st) (page st)) = (ads, 404)"
    using assms(2) by (cases "fetchPage (page_response e (Suc (requestsCount st)) (buildId st) (page st))") auto
  have "iteration e tz urlHost searchId st
        = Break (st\<lparr>requestsCount := Suc (requestsCount st), stopReason := Error,
                  errorMessage := Some ''Page 404 (likely buildId) after retry''\<rparr>)"
    using assms(3) by (simp add: iteration_eq [OF fp] MAX_RETRIES_def)
  then show ?thesis
    using assms(1) by (simp add: fetch_loop_Break)
qed

lemma loop_detect:
  assumes "page st \<le> maxPages"
    and "fetchPage (page_response e (requestsCount st + 1) (buildId st) (page st)) = (ads, status)"
    and "ads \<noteq> []"
    and "String_listId (listId (ads ! 0)) \<in> snd ` set (pageFirstIds st)"
  shows "fetch_loop e tz urlHost searchId maxPages st
         = Inr (st\<lparr>requestsCount := requestsCount st + 1, stopReason := Loop\<rparr>)"
proof -
  have st: "status = 200" using assms(2,3) by (rule fetchPage_nonempty_200)
  have fp: "fetchPage (page_response e (Suc (requestsCount st)) (buildId st) (page st)) = (ads, status)"
    using assms(2) by simp
  have "iteration e tz urlHost searchId st
        = accept_page e tz searchId ads (st\<lparr>requestsCount := Suc (requestsCount st)\<rparr>)"
    using assms(3) st by (simp add: iteration_eq [OF fp])
  also have "\<dots> = Break (st\<lparr>requestsCount := Suc (requestsCount st), stopReason := Loop\<rparr>)"
    using assms(4) by (subst accept_loop) simp_all
  finally show ?thesis
    using assms(1) by (simp add: fetch_loop_Break)
qed

lemma loop_accept:
  assumes "page st \<le> maxPages"
    and "fetchPage (page_response e (requestsCount st + 1) (buildId st) (page st)) = (ads, status)"
    and "ads \<noteq> []"
    and "String_listId (listId (ads ! 0)) \<notin> snd ` set (pageFirstIds st)"
    and "list_all properties_well_typed ads"
  shows "\<exists>new. fetch_loop e tz urlHost searchId maxPages st
               = fetch_loop e tz urlHost searchId maxPages
                   (st\<lparr>requestsCount := requestsCount st + 1,
                       pageFirstIds := AList.update (page st) (String_listId (listId (ads ! 0)))
                                         (pageFirstIds st),
                       acc_listings := acc_listings st @ new,
                       seenIds := seenIds st \<union> (\<lambda>ad. String_listId (listId ad)) ` set ads,
                       page := page st + 1\<rparr>)
             \<and> list_id ` set new = (\<lambda>ad. String_listId (listId ad)) ` set ads - seenIds st
             \<and> distinct (map list_id new)"
proof -
  have st: "status = 200" using assms(2,3) by (rule fetchPage_nonempty_200)
  have fp: "fetchPage (page_response e (Suc (requestsCount st)) (buildId st) (page st)) = (ads, status)"
    using assms(2) by simp
  have "\<forall>ad\<in>set ads. valid_ad ad \<and> properties_well_typed ad"
    using fetchPage_valid [OF assms(2)] assms(5) by (simp add: list_all_iff)
  from add_ads_total [OF this, of searchId "tz (clock e (Suc (requestsCount st)))"
        "acc_listings st" "seenIds st"]
  obtain new where new:
    "add_ads searchId (tz (clock e (Suc (requestsCount st)))) ads (acc_listings st, seenIds st)
       = Inr (acc_listings st @ new, seenIds st \<union> (\<lambda>ad. String_listId (listId ad)) ` set ads)"
    "list_id ` set new = (\<lambda>ad. String_listId (listId ad)) ` set ads - seenIds st"
    "distinct (map list_id new)" by blast
  have "iteration e tz urlHost searchId st
        = accept_page e tz searchId ads (st\<lparr>requestsCount := Suc (requestsCount st)\<rparr>)"
    using assms(3) st by (simp add: iteration_eq [OF fp])
  also have "\<dots> = Continue (st\<lparr>requestsCount := Suc (requestsCount st),
         pageFirstIds := AList.update (page st) (String_listId (listId (ads ! 0))) (pageFirstIds st),
         acc_listings := acc_listings st @ new,
         seenIds := seenIds st \<union> (\<lambda>ad. String_listId (listId ad)) ` set ads\<rparr>)"
    using assms(4) new(1) by (subst accept_ok) simp_all
  finally have "fetch_loop e tz urlHost searchId maxPages st
               = fetch_loop e tz urlHost searchId maxPages
                   (st\<lparr>requestsCount := requestsCount st + 1,
                       pageFirstIds := AList.update (page st) (String_listId (listId (ads ! 0)))
                                         (pageFirstIds st),
                       acc_listings := acc_listings st @ new,
                       seenIds := seenIds st \<union> (\<lambda>ad. String_listId (listId ad)) ` set ads,
                       page := page st + 1\<rparr>)"
    using assms(1) by (simp add: fetch_loop_Continue)
  with new(2,3) show ?thesis by blast
qed

lemma loop_accept_raw:
  assumes "page st \<le> maxPages"
    and "fetchPage (page_response e (requestsCount st + 1) (buildId st) (page st)) = (ads, status)"
    and "ads \<noteq> []"
    and "String_listId (listId (ads ! 0)) \<notin> snd ` set (pageFirstIds st)"
  shows "fetch_loop e tz urlHost searchId maxPages st
         = (case add_ads searchId (tz (clock e (requestsCount st + 1))) ads
                   (acc_listings st, seenIds st) of
              Inl err \<Rightarrow> Inl err
            | Inr (ls, seen) \<Rightarrow>
                fetch_loop e tz urlHost searchId maxPages
                  (st\<lparr>requestsCount := requestsCount st + 1,
                      pageFirstIds := AList.update (page st) (String_listId (listId (ads ! 0)))
                                        (pageFirstIds st),
                      acc_listings := ls, seenIds := seen, page := page st + 1\<rparr>))"
proof -
  have st: "status = 200" using assms(2,3) by (rule fetchPage_nonempty_200)
  have fp: "fetchPage (page_response e (Suc (requestsCount st)) (buildId st) (page st)) = (ads, status)"
    using assms(2) by simp
  have it: "iteration e tz urlHost searchId st
        = accept_page e tz searchId ads (st\<lparr>requestsCount := Suc (requestsCount st)\<rparr>)"
    using assms(3) st by (simp add: iteration_eq [OF fp])
  show ?thesis
  proof (cases "add_ads searchId (tz (clock e (Suc (requestsCount st)))) ads
                   (acc_listings st, seenIds st)")
    case (Inl err)
    with assms(4) have "iteration e tz urlHost searchId st = Throw err"
      by (simp add: it accept_page_def Let_def list_ex_snd)
    with assms(1) Inl show ?thesis
      by (simp add: fetch_loop_Throw)
  next
    case (Inr r)
    obtain ls seen where r: "r = (ls, seen)" by (cases r)
    have "accept_page e tz searchId ads (st\<lparr>requestsCount := Suc (requestsCount st)\<rparr>)
          = Continue (st\<lparr>requestsCount := Suc (requestsCount st),
               pageFirstIds := AList.update (page st) (String_listId (listId (ads ! 0))) (pageFirstIds st),
               acc_listings := ls, seenIds := seen\<rparr>)"
      using assms(4) Inr r by (subst accept_ok) simp_all
    with it assms(1) Inr r show ?thesis
      by (simp add: fetch_loop_Continue)
  qed
qed


lemma finish_stop:
  "stopReason st \<noteq> Completed \<Longrightarrow> stop_reason (finish e t0 maxPages st) = stopReason st"
  by (simp add: finish_def)

lemma three_pages:
  assumes m: "3 \<le> maxPages"
    and p1: "fetchPage (page_response e 2 b 1) = (p1, s1)" "p1 \<noteq> []"
    and p2: "fetchPage (page_response e 3 b 2) = (p2, s2)" "p2 \<noteq> []"
    and p3: "fetchPage (page_response e 4 b 3) = (p3, s3)" "p3 \<noteq> []"
    and wt: "list_all properties_well_typed (p1 @ p2)"
    and f2: "String_listId (listId (p2 ! 0)) \<noteq> String_listId (listId (p1 ! 0))"
    and f3: "String_listId (listId (p3 ! 0)) = String_listId (listId (p1 ! 0))"
  shows "\<exists>st'. fetch_loop e tz urlHost searchId maxPages (initial_state b cache) = Inr st'
           \<and> stopReason st' = Loop \<and> page st' = 3
           \<and> pageFirstIds st'
               = [(1, String_listId (listId (p1 ! 0))), (2, String_listId (listId (p2 ! 0)))]
           \<and> list_id ` set (acc_listings st')
               = (\<lambda>ad. String_listId (listId ad)) ` (set p1 \<union> set p2)"
proof -
  let ?id = "\<lambda>ad. String_listId (listId ad)"
  let ?st0 = "initial_state b cache"
  have wt1: "list_all properties_well_typed p1" and wt2: "list_all properties_well_typed p2"
    using wt by simp_all
  have "\<exists>new. fetch_loop e tz urlHost searchId maxPages ?st0
               = fetch_loop e tz urlHost searchId maxPages
                   (?st0\<lparr>requestsCount := requestsCount ?st0 + 1,
                       pageFirstIds := AList.update (page ?st0) (?id (p1 ! 0)) (pageFirstIds ?st0),
                       acc_listings := acc_listings ?st0 @ new,
                       seenIds := seenIds ?st0 \<union> ?id ` set p1,
                       page := page ?st0 + 1\<rparr>)
             \<and> list_id ` set new = ?id ` set p1 - seenIds ?st0
             \<and> distinct (map list_id new)"
    by (rule loop_accept [where status = s1])
       (use m p1 wt1 in \<open>simp_all add: initial_state_def numeral_2_eq_2\<close>)
  then obtain n1 where n1:
    "fetch_loop e tz urlHost searchId maxPages ?st0
       = fetch_loop e tz urlHost searchId maxPages
           (?st0\<lparr>requestsCount := 2, pageFirstIds := [(1, ?id (p1 ! 0))],
                acc_listings := n1, seenIds := ?id ` set p1, page := 2\<rparr>)"
    "list_id ` set n1 = ?id ` set p1"
    by (auto simp: initial_state_def numeral_2_eq_2)
  let ?st1 = "?st0\<lparr>requestsCount := 2, pageFirstIds := [(1, ?id (p1 ! 0))],
                acc_listings := n1, seenIds := ?id ` set p1, page := 2\<rparr>"
  have "\<exists>new. fetch_loop e tz urlHost searchId maxPages ?st1
               = fetch_loop e tz urlHost searchId maxPages
                   (?st1\<lparr>requestsCount := requestsCount ?st1 + 1,
                       pageFirstIds := AList.update (page ?st1) (?id (p2 ! 0)) (pageFirstIds ?st1),
                       acc_listings := acc_listings ?st1 @ new,
                       seenIds := seenIds ?st1 \<union> ?id ` set p2,
                       page := page ?st1 + 1\<rparr>)
             \<and> list_id ` set new = ?id ` set p2 - seenIds ?st1
             \<and> distinct (map list_id new)"
    by (rule loop_accept [where status = s2])
       (use m p2 wt2 f2 in \<open>simp_all add: initial_state_def\<close>)
  then obtain n2 where n2:
    "fetch_loop e tz urlHost searchId maxPages ?st1
       = fetch_loop e tz urlHost searchId maxPages
           (?st0\<lparr>requestsCount := 3,
                pageFirstIds := [(1, ?id (p1 ! 0)), (2, ?id (p2 ! 0))],
                acc_listings := n1 @ n2, seenIds := ?id ` set p1 \<union> ?id ` set p2, page := 3\<rparr>)"
    "list_id ` set n2 = ?id ` set p2 - ?id ` set p1"
    by (auto simp: initial_state_def)
  let ?st2 = "?st0\<lparr>requestsCount := 3,
                pageFirstIds := [(1, ?id (p1 ! 0)), (2, ?id (p2 ! 0))],
                acc_listings := n1 @ n2, seenIds := ?id ` set p1 \<union> ?id ` set p2, page := 3\<rparr>"
  have l3: "fetch_loop e tz urlHost searchId maxPages ?st2
        = Inr (?st2\<lparr>requestsCount := requestsCount ?st2 + 1, stopReason := Loop\<rparr>)"
    by (rule loop_detect [where status = s3 and ads = p3])
       (use m p3 f3 in \<open>simp_all add: initial_state_def\<close>)
  have "list_id ` set (n1 @ n2) = list_id ` set n1 \<union> list_id ` set n2"
    by (simp add: image_Un)
  also have "\<dots> = ?id ` set p1 \<union> (?id ` set p2 - ?id ` set p1)"
    by (simp only: n1(2) n2(2))
  also have "\<dots> = ?id ` (set p1 \<union> set p2)"
    by blast
  finally have "list_id ` set (n1 @ n2) = ?id ` (set p1 \<union> set p2)" .
  with n1(1) n2(1) l3 show ?thesis
    by (intro exI [of _ "?st2\<lparr>requestsCount := requestsCount ?st2 + 1, stopReason := Loop\<rparr>"])
       simp
qed


section \<open>Properties of the diff engine\<close>

text \<open>
  Claim C1. \<^verbatim>\<open>computeDiff(current, seen)\<close> returns exactly the elements of \<^verbatim>\<open>current\<close>
  whose \<^verbatim>\<open>list_id\<close> is not in \<^verbatim>\<open>seen\<close>: it is a subsequence of \<^verbatim>\<open>current\<close> (same order, nothing
  invented), every listing occurs in it as often as in \<^verbatim>\<open>current\<close> when its id is unseen and not at
  all when its id is seen. An empty \<^verbatim>\<open>current\<close> gives an empty result, and running the diff again
  on its own output with the same seen-set changes nothing. The function is a pure function of
  its two arguments.
\<close>

theorem computeDiff_exact:
  "subseq (computeDiff current seen) current
   \<and> count_list (computeDiff current seen) l
       = (if list_id l \<in> seen then 0 else count_list current l)
   \<and> set (computeDiff current seen) = {l \<in> set current. list_id l \<notin> seen}
   \<and> computeDiff [] seen = []
   \<and> computeDiff (computeDiff current seen) seen = computeDiff current seen"
proof -
  have cnt: "count_list (filter P xs) x = (if P x then count_list xs x else 0)"
    for P :: "listing \<Rightarrow> bool" and xs x
    by (induction xs) auto
  show ?thesis
    unfolding computeDiff_def by (auto simp: cnt)
qed

theorem computeDiff_exact_witness:
  "computeDiff [example_listing ''1'' None, example_listing ''2'' None] {''1''}
     = [example_listing ''2'' None]
   \<and> subseq [example_listing ''2'' None] [example_listing ''1'' None, example_listing ''2'' None]"
  using computeDiff_exact
    [of "[example_listing ''1'' None, example_listing ''2'' None]" "{''1''}" "example_listing ''2'' None"]
  by (simp add: computeDiff_def example_listing_def)

section \<open>Properties of the listing parser\<close>

text \<open>
  Claim C7, as amended. For every subject that has a character other than white space,
  \<^verbatim>\<open>extractModelFromSubject\<close> computes the subject-line heuristic with the leading noise word
  stripped only when white space and more text follow it: split the subject into its
  white-space separated tokens, drop the first token when it is a noise word (in any case) and
  is not the only token, drop the year and engine-size tokens, and return the first two
  remaining tokens joined by a space when the second is not spec-like, the first alone
  otherwise, and nothing when no token remains. The subject \<^verbatim>\<open>Vendo Honda Civic 2015 4p
  automatico\<close> (with its accented a) yields \<^verbatim>\<open>Honda Civic\<close>.
\<close>

theorem extractModelFromSubject_heuristic:
  "((\<exists>c\<in>set subj. \<not> is_space c) \<longrightarrow> extractModelFromSubject subj = heuristic_amended subj)
   \<and> extractModelFromSubject (''Vendo Honda Civic 2015 4p autom'' @ [CHR 0xE1] @ ''tico'')
       = Some ''Honda Civic''"
proof (intro conjI impI)
  assume nb: "\<exists>c\<in>set subj. \<not> is_space c"
  have "split_ws (strip_noise (trim subj))
        = (case tokens subj of [] \<Rightarrow> []
           | w # ws \<Rightarrow> if is_noise w \<and> ws \<noteq> [] then ws else w # ws)"
    using split_ws_strip_noise [OF trim_nonblank [OF nb]] by (simp add: tokens_trim)
  then show "extractModelFromSubject subj = heuristic_amended subj"
    by (simp only: extractModelFromSubject_pick heuristic_amended_def)
next
  show "extractModelFromSubject (''Vendo Honda Civic 2015 4p autom'' @ [CHR 0xE1] @ ''tico'')
          = Some ''Honda Civic''"
    by code_simp
qed

theorem extractModelFromSubject_heuristic_witness:
  "(\<exists>c\<in>set ''TOP  Gol 1.0 flex''. \<not> is_space c)
   \<and> extractModelFromSubject ''TOP  Gol 1.0 flex'' = Some ''Gol''"
proof -
  have nb: "\<exists>c\<in>set ''TOP  Gol 1.0 flex''. \<not> is_space c"
    by (simp add: is_space_def)
  have "heuristic_amended ''TOP  Gol 1.0 flex'' = Some ''Gol''"
    by code_simp
  with nb extractModelFromSubject_heuristic [of "''TOP  Gol 1.0 flex''"]
  show ?thesis by simp
qed

text \<open>
  The claim as stated fails on a subject that is a noise word and nothing else: the regular
  expression asks for white space after the word, so nothing is stripped and the word itself
  is returned, where the stated heuristic strips it and returns nothing.
\<close>

theorem heuristic_as_stated_counterexample:
  "extractModelFromSubject ''Vendo'' = Some ''Vendo'' \<and> heuristic_as_stated ''Vendo'' = None"
  by code_simp

text \<open>
  Claim C10. The claim says that \<^verbatim>\<open>extractModelFromSubject\<close> never returns the empty string.
  On a subject of three spaces it does: \<^verbatim>\<open>trim\<close> leaves the empty string, whose split is one
  empty token, and that token is returned. \<^verbatim>\<open>parseAd\<close> passes such a subject on (it is truthy)
  and stores the empty string as the model of the listing.
\<close>

theorem extractModelFromSubject_blank:
  "extractModelFromSubject ''   '' = Some []
   \<and> (case parseAd (example_ad 7 (Some ''   '') None) ''s1'' ''2026-01-01T00:00:00.000Z'' of
        Inl err \<Rightarrow> None
      | Inr l \<Rightarrow> model l) = Some []"
  by code_simp

text \<open>
  Claim C9, as amended. \<^verbatim>\<open>parseAd\<close> returns a listing, without raising, for every raw ad that
  passed the validity filter of \<^verbatim>\<open>fetchPage\<close> and whose property entries each have a label and
  a value, as the interface \<^verbatim>\<open>OlxAdProperty\<close> declares; subject, price, location, property list,
  thumbnail and date may each be absent. The listing carries the ad's id and the search id.
\<close>

theorem parseAd_total:
  assumes "valid_ad ad" and "properties_well_typed ad"
  shows "\<exists>l. parseAd ad searchId now = Inr l
             \<and> list_id l = String_listId (listId ad) \<and> search_id l = searchId"
  using assms by (rule parseAd_returns)

theorem parseAd_total_witness:
  "valid_ad (example_ad 7 (Some ''Vendo Gol'') (Some [\<lparr>label = Some ''KM'', prop_value = Some ''45.000''\<rparr>]))
   \<and> properties_well_typed
       (example_ad 7 (Some ''Vendo Gol'') (Some [\<lparr>label = Some ''KM'', prop_value = Some ''45.000''\<rparr>]))
   \<and> parseAd (example_ad 7 (Some ''Vendo Gol'') (Some [\<lparr>label = Some ''KM'', prop_value = Some ''45.000''\<rparr>]))
        ''s1'' ''2026-01-01T00:00:00.000Z'' \<noteq> Inl TypeError"
proof -
  let ?ad = "example_ad 7 (Some ''Vendo Gol'') (Some [\<lparr>label = Some ''KM'', prop_value = Some ''45.000''\<rparr>])"
  have v: "valid_ad ?ad"
    by (simp add: valid_ad_def example_ad_def)
  have w: "properties_well_typed ?ad"
    by (simp add: properties_well_typed_def example_ad_def)
  from parseAd_total [OF v w, of "''s1''" "''2026-01-01T00:00:00.000Z''"] v w
  show ?thesis by auto
qed

text \<open>
  The claim as stated, with property entries of any shape, fails on an ad that passed the
  validity filter and has a property entry without a label: reading \<^verbatim>\<open>p.label.toLowerCase\<close>
  raises a \<^verbatim>\<open>TypeError\<close>.
\<close>

theorem parseAd_missing_label_counterexample:
  "valid_ad (example_ad 7 (Some ''Vendo Gol'') (Some [\<lparr>label = None, prop_value = Some ''Gol''\<rparr>]))
   \<and> parseAd (example_ad 7 (Some ''Vendo Gol'') (Some [\<lparr>label = None, prop_value = Some ''Gol''\<rparr>]))
        ''s1'' ''2026-01-01T00:00:00.000Z'' = Inl TypeError"
  by (simp add: valid_ad_def example_ad_def parseAd_def model_of_properties_def)

section \<open>Properties of the filter engine\<close>

text \<open>
  Claim C8, as amended. \<^verbatim>\<open>applyModelFilters\<close> returns exactly the listings that pass both
  filters in order, where a model that is the empty string counts as absent: with a non-empty
  whitelist only listings whose model is neither absent nor empty and contains a whitelist
  term as a case-insensitive substring are kept; with a non-empty blacklist the listings whose
  model contains a blacklist term are then dropped, and a listing whose model is absent or
  empty is never dropped by the blacklist. The whitelist \<^verbatim>\<open>civic\<close> on the models
  \<^verbatim>\<open>Honda Civic\<close>, \<^verbatim>\<open>Fiat Uno\<close> and \<^verbatim>\<open>null\<close> keeps the first listing only.
\<close>

theorem applyModelFilters_amended:
  "applyModelFilters ls whitelist blacklist = filters_amended ls whitelist blacklist
   \<and> applyModelFilters
        [example_listing ''1'' (Some ''Honda Civic''), example_listing ''2'' (Some ''Fiat Uno''),
         example_listing ''3'' None] [''civic''] []
       = [example_listing ''1'' (Some ''Honda Civic'')]"
proof -
  have example: "applyModelFilters
        [example_listing ''1'' (Some ''Honda Civic''), example_listing ''2'' (Some ''Fiat Uno''),
         example_listing ''3'' None] [''civic''] []
       = [example_listing ''1'' (Some ''Honda Civic'')]"
    by code_simp
  have ex: "list_ex (\<lambda>w. includes_js (toLowerCase m) w) (map toLowerCase ts)
            \<longleftrightarrow> (\<exists>t\<in>set ts. ci_contains m t)" for m ts
    by (simp add: list_ex_iff includes_ci)
  have wl: "(case model l of None \<Rightarrow> False
             | Some m \<Rightarrow> if m = [] then False
                         else list_ex (\<lambda>w. includes_js (toLowerCase m) w) (map toLowerCase whitelist))
            = (case model l of None \<Rightarrow> False
               | Some m \<Rightarrow> m \<noteq> [] \<and> (\<exists>w \<in> set whitelist. ci_contains m w))" for l
    by (auto simp: ex split: option.splits)
  have bl: "(case model l of None \<Rightarrow> True
             | Some m \<Rightarrow> if m = [] then True
                         else \<not> list_ex (\<lambda>b. includes_js (toLowerCase m) b) (map toLowerCase blacklist))
            = (case model l of None \<Rightarrow> True
               | Some m \<Rightarrow> m = [] \<or> \<not> (\<exists>b \<in> set blacklist. ci_contains m b))" for l
    by (auto simp: ex split: option.splits)
  have "applyModelFilters ls whitelist blacklist = filters_amended ls whitelist blacklist"
    unfolding applyModelFilters_def filters_amended_def Let_def wl bl
    by (cases whitelist; cases blacklist) simp_all
  with example show ?thesis by blast
qed

theorem applyModelFilters_amended_witness:
  "applyModelFilters
     [example_listing ''1'' (Some ''Honda Civic''), example_listing ''2'' (Some ''Fiat Uno''),
      example_listing ''3'' None] [] [''UNO'']
   = [example_listing ''1'' (Some ''Honda Civic''), example_listing ''3'' None]"
proof -
  have "filters_amended
     [example_listing ''1'' (Some ''Honda Civic''), example_listing ''2'' (Some ''Fiat Uno''),
      example_listing ''3'' None] [] [''UNO'']
   = [example_listing ''1'' (Some ''Honda Civic''), example_listing ''3'' None]"
    by code_simp
  with applyModelFilters_amended
     [of "[example_listing ''1'' (Some ''Honda Civic''), example_listing ''2'' (Some ''Fiat Uno''),
      example_listing ''3'' None]" "[]" "[''UNO'']"]
  show ?thesis by simp
qed

text \<open>
  The claim as stated fails on a listing whose model is the empty string when the whitelist
  has the empty term: the model is not absent and contains the term, so the stated filter
  keeps the listing, but \<^verbatim>\<open>!listing.model\<close> holds and the code drops it.
\<close>

theorem filters_as_stated_counterexample:
  "applyModelFilters [example_listing ''1'' (Some '''')] [''''] [] = []
   \<and> filters_as_stated [example_listing ''1'' (Some '''')] [''''] []
       = [example_listing ''1'' (Some '''')]"
  by code_simp

section \<open>Properties of the seen-set\<close>

text \<open>
  Claim C2. Let \<^verbatim>\<open>db\<close> be the table left by any sequence \<^verbatim>\<open>cs\<close> of \<^verbatim>\<open>addSeenIds\<close> calls on the
  empty table, for any search ids, id lists, clock readings and orders of the database among
  ties. Then \<^verbatim>\<open>db\<close> has at most one row per pair of search id and listing id. Inserting an id
  that is present leaves the rows as they are, and inserting an absent id appends one row that
  carries the clock reading of that insert as its first-seen time. For one more call, with
  \<^verbatim>\<open>mid\<close> the table after its inserts and \<^verbatim>\<open>db'\<close> the table it leaves: the rows of \<^verbatim>\<open>db\<close> are
  kept unchanged in \<^verbatim>\<open>mid\<close>, and the rows added are, in order, one for each first occurrence
  at a position \<^verbatim>\<open>k\<close> of an id that was absent, with the clock reading \<^verbatim>\<open>now k\<close> of its statement;
  a call with present ids only leaves the rows as they are. Every search has at most 2000 rows
  in \<^verbatim>\<open>db\<close>, and exactly 2000 when more than 2000 distinct ids were passed in for it. After the
  call the search has the smaller of 2000 and its number of rows in \<^verbatim>\<open>mid\<close>, no row is
  invented, the rows of other searches are untouched, and every deleted row belongs to the
  search and was first seen no later than every row that the search retains: the rows
  retained are the most recently first-seen ones, whatever the order among ties.
\<close>

theorem seen_set_capped:
  assumes "db = run_calls cs empty_db"
    and "mid = insert_batch now sid ids db"
    and "db' = addSeenIds now tie db sid ids"
  shows "distinct (map (\<lambda>r. (row_search_id r, row_list_id r)) (rows db))
   \<and> (lid \<in> getSeenIds db sid \<longrightarrow> rows (insert_or_ignore t sid lid db) = rows db)
   \<and> (lid \<notin> getSeenIds db sid \<longrightarrow>
        rows (insert_or_ignore t sid lid db)
        = rows db @ [\<lparr>row_id = next_id db, row_search_id = sid, row_list_id = lid,
                       first_seen_at = t\<rparr>])
   \<and> (\<exists>news. rows mid = rows db @ news
         \<and> map (\<lambda>r. (row_search_id r, row_list_id r, first_seen_at r)) news
           = [(sid, ids ! k, now k). k \<leftarrow> [0..<length ids],
                ids ! k \<notin> getSeenIds db sid \<union> set (take k ids)])
   \<and> (set ids \<subseteq> getSeenIds db sid \<longrightarrow> rows db' = rows db)
   \<and> length (rows_of db sid) \<le> 2000
   \<and> (card (inserted cs sid) > 2000 \<longrightarrow> length (rows_of db sid) = 2000)
   \<and> length (rows_of db' sid) = min 2000 (length (rows_of mid sid))
   \<and> set (rows db') \<subseteq> set (rows mid)
   \<and> (\<forall>s. s \<noteq> sid \<longrightarrow> rows_of db' s = rows_of db s)
   \<and> (\<forall>r \<in> set (rows_of db' sid). \<forall>d \<in> set (rows mid) - set (rows db').
         row_search_id d = sid \<and> first_seen_at d \<le> first_seen_at r)"
proof -
  have inv: "db_ok db"
    "length (rows_of db sid) = min SEEN_IDS_CAP (card (inserted cs sid))"
    using run_inv [of cs] assms(1) by auto
  have okm: "db_ok mid" using inv(1) assms(2) by (simp add: db_ok_batch)
  have c1: "distinct (map (\<lambda>r. (row_search_id r, row_list_id r)) (rows db))"
    using inv(1) by (simp add: db_ok_def)
  have c2: "lid \<in> getSeenIds db sid \<longrightarrow> rows (insert_or_ignore t sid lid db) = rows db"
    by (simp add: rows_insert_present)
  have c2': "lid \<notin> getSeenIds db sid \<longrightarrow>
        rows (insert_or_ignore t sid lid db)
        = rows db @ [\<lparr>row_id = next_id db, row_search_id = sid, row_list_id = lid,
                       first_seen_at = t\<rparr>]"
    by (simp add: rows_insert_absent)
  have c2'': "\<exists>news. rows mid = rows db @ news
         \<and> map (\<lambda>r. (row_search_id r, row_list_id r, first_seen_at r)) news
           = [(sid, ids ! k, now k). k \<leftarrow> [0..<length ids],
                ids ! k \<notin> getSeenIds db sid \<union> set (take k ids)]"
    unfolding assms(2) by (rule rows_batch_stamps)
  have c3: "length (rows_of db sid) \<le> 2000"
    using inv(2) by (simp add: SEEN_IDS_CAP_def)
  have c3': "set ids \<subseteq> getSeenIds db sid \<longrightarrow> rows db' = rows db"
    using add_present_rows [OF inv(1), of sid ids now tie] c3
    by (simp add: assms(3) SEEN_IDS_CAP_def)
  have c4: "card (inserted cs sid) > 2000 \<longrightarrow> length (rows_of db sid) = 2000"
    using inv(2) by (simp add: SEEN_IDS_CAP_def)
  have c8: "\<forall>s. s \<noteq> sid \<longrightarrow> rows_of db' s = rows_of db s"
    by (simp add: assms(3) add_other)
  show ?thesis
  proof (cases "ids = []")
    case True
    then have "db' = db" "mid = db" using assms by (simp_all add: addSeenIds_def)
    with c1 c2 c2' c2'' c3 c3' c4 c8 show ?thesis by simp
  next
    case False
    then have d': "db' = enforce_cap tie sid mid"
      using assms by (simp add: addSeenIds_def)
    have c5: "length (rows_of db' sid) = min 2000 (length (rows_of mid sid))"
      using cap_count [OF okm, of tie sid] by (simp add: d' SEEN_IDS_CAP_def)
    have c6: "set (rows db') \<subseteq> set (rows mid)"
      unfolding d' by (rule cap_subset)
    have c7: "\<forall>r \<in> set (rows_of db' sid). \<forall>d \<in> set (rows mid) - set (rows db').
         row_search_id d = sid \<and> first_seen_at d \<le> first_seen_at r"
    proof (intro ballI)
      fix r d
      assume r: "r \<in> set (rows_of db' sid)" and d: "d \<in> set (rows mid) - set (rows db')"
      then have s: "row_search_id d = sid"
        using cap_deleted_sid [of d mid tie sid] by (simp add: d')
      with d have "d \<in> set (rows_of mid sid)" by (simp add: rows_of_def)
      with r d have "first_seen_at d \<le> first_seen_at r"
        using cap_order [OF okm, of r tie sid d] by (simp add: d')
      with s show "row_search_id d = sid \<and> first_seen_at d \<le> first_seen_at r" by simp
    qed
    from c1 c2 c2' c2'' c3 c3' c4 c5 c6 c7 c8 show ?thesis by blast
  qed
qed

theorem seen_set_capped_witness:
  "card (inserted [(clock_at 7, row_id, ''s1'', example_ids 2001)] ''s1'') > 2000
   \<and> length (rows_of (run_calls [(clock_at 7, row_id, ''s1'', example_ids 2001)] empty_db) ''s1'')
       = 2000
   \<and> ''1'' \<in> getSeenIds (run_calls [(clock_at 7, row_id, ''s1'', [''1''])] empty_db) ''s1''
   \<and> rows (insert_or_ignore 9 ''s1'' ''1''
              (run_calls [(clock_at 7, row_id, ''s1'', [''1''])] empty_db))
       = rows (run_calls [(clock_at 7, row_id, ''s1'', [''1''])] empty_db)"
proof -
  note big = seen_set_capped
    [OF refl refl refl, where cs = "[(clock_at 7, row_id, ''s1'', example_ids 2001)]"
       and sid = "''s1''",
     THEN conjunct2, THEN conjunct2, THEN conjunct2, THEN conjunct2, THEN conjunct2,
     THEN conjunct2, THEN conjunct1, rule_format]
  note again = seen_set_capped
    [OF refl refl refl, where cs = "[(clock_at 7, row_id, ''s1'', [''1''])]"
       and sid = "''s1''" and lid = "''1''" and t = 9,
     THEN conjunct2, THEN conjunct1, rule_format]
  have a: "card (inserted [(clock_at 7, row_id, ''s1'', example_ids 2001)] ''s1'') > 2000"
    by (simp add: inserted_def card_example_ids)
  have b: "''1'' \<in> getSeenIds (run_calls [(clock_at 7, row_id, ''s1'', [''1''])] empty_db) ''s1''"
    using add_seen_noevict [OF db_ok_empty, of "''s1''" "[''1'']" "clock_at 7" row_id]
    by (simp add: run_calls_def getSeenIds_def rows_of_def empty_db_def SEEN_IDS_CAP_def)
  show ?thesis
    by (intro conjI) (rule a big [OF a] b again [OF b])+
qed

text \<open>
  Claim C3, as amended. Let \<^verbatim>\<open>db\<close> be the table left by any sequence \<^verbatim>\<open>cs\<close> of recordings. An id
  that is in the seen-set of a search is in the output of no diff against that seen-set,
  whatever the fetched listings are, and is not among the alerts of a scan of that search. A
  scan records all the listings it observed, not only the new ones, by one \<^verbatim>\<open>addSeenIds\<close> call,
  so that the table after the scan is again the result of a sequence of recordings. A recorded
  id leaves the seen-set only when the cap deletes its row. For one more call, with \<^verbatim>\<open>mid\<close> the
  table after its inserts and \<^verbatim>\<open>db'\<close> the table it leaves: a row of the search stays when
  fewer than 2000 other rows of the search in \<^verbatim>\<open>mid\<close> were first seen at the same time or
  later, and it is deleted when 2000 rows of the search in \<^verbatim>\<open>mid\<close> were first seen later.
  Over any further sequence \<^verbatim>\<open>cs2\<close> of calls a row of the search stays when fewer than 2000
  other ids are in the table with a first-seen time at least as recent or are passed for the
  search by \<^verbatim>\<open>cs2\<close>. In particular, as long as no more than 2000 distinct ids have been passed
  for a search, every one of them is in its seen-set.
\<close>

theorem recorded_ids_not_rediffed:
  assumes "db = run_calls cs empty_db"
    and "mid = insert_batch now s ids db"
    and "db' = addSeenIds now tie db s ids"
  shows "(x \<in> getSeenIds db sid \<longrightarrow>
        x \<notin> list_id ` set (computeDiff ls (getSeenIds db sid))
        \<and> (ss_id search = sid \<longrightarrow>
             x \<notin> list_id ` set (alerts (fst (scan_after_fetch now tie db search stats)))))
   \<and> snd (scan_after_fetch now tie db search stats)
       = run_calls (cs @ [(now, tie, ss_id search, map list_id (listings stats))]) empty_db
   \<and> list_id ` set (listings stats)
       \<subseteq> inserted (cs @ [(now, tie, ss_id search, map list_id (listings stats))]) (ss_id search)
   \<and> (r \<in> set (rows_of mid sid)
        \<and> length (filter (\<lambda>q. q \<noteq> r \<and> first_seen_at r \<le> first_seen_at q) (rows_of mid sid))
            < 2000 \<longrightarrow>
        r \<in> set (rows_of db' sid) \<and> row_list_id r \<in> getSeenIds db' sid)
   \<and> (r \<in> set (rows_of mid sid) \<and> s = sid \<and> ids \<noteq> []
        \<and> 2000 \<le> length (filter (\<lambda>q. first_seen_at r < first_seen_at q) (rows_of mid sid)) \<longrightarrow>
        r \<notin> set (rows db'))
   \<and> (r \<in> set (rows_of db sid)
        \<and> card (row_list_id ` {q \<in> set (rows_of db sid).
                                  q \<noteq> r \<and> first_seen_at r \<le> first_seen_at q}
                \<union> (inserted cs2 sid - {row_list_id r})) < 2000 \<longrightarrow>
        r \<in> set (rows_of (run_calls cs2 db) sid)
        \<and> row_list_id r \<in> getSeenIds (run_calls (cs @ cs2) empty_db) sid)
   \<and> (x \<in> inserted cs sid \<and> card (inserted cs sid) \<le> 2000 \<longrightarrow> x \<in> getSeenIds db sid)"
proof -
  have ok: "db_ok db" using run_inv [of cs] assms(1) by simp
  have okm: "db_ok mid" using ok assms(2) by (simp add: db_ok_batch)
  have c2: "x \<in> getSeenIds db sid \<Longrightarrow> x \<notin> list_id ` set (computeDiff ls (getSeenIds db sid))"
    for ls
    by (auto simp: computeDiff_def)
  have c3: "x \<in> getSeenIds db sid \<Longrightarrow> ss_id search = sid \<Longrightarrow>
        x \<notin> list_id ` set (alerts (fst (scan_after_fetch now tie db search stats)))"
  proof -
    assume x: "x \<in> getSeenIds db sid" and s: "ss_id search = sid"
    have "set (alerts (fst (scan_after_fetch now tie db search stats)))
          \<subseteq> set (computeDiff (listings stats) (getSeenIds db sid))"
      using applyModelFilters_subset
        [of "computeDiff (listings stats) (getSeenIds db sid)"
            "model_whitelist search" "model_blacklist search"]
      by (simp add: scan_after_fetch_def Let_def s)
    with c2 [OF x, of "listings stats"]
    show "x \<notin> list_id ` set (alerts (fst (scan_after_fetch now tie db search stats)))"
      by blast
  qed
  have c4: "snd (scan_after_fetch now tie db search stats)
       = run_calls (cs @ [(now, tie, ss_id search, map list_id (listings stats))]) empty_db"
    by (simp add: scan_after_fetch_def Let_def run_calls_snoc assms(1) addSeenIds_def)
  have c5: "list_id ` set (listings stats)
       \<subseteq> inserted (cs @ [(now, tie, ss_id search, map list_id (listings stats))]) (ss_id search)"
    by (simp add: inserted_snoc)
  have c6: "r \<in> set (rows_of db' sid) \<and> row_list_id r \<in> getSeenIds db' sid"
    if r: "r \<in> set (rows_of mid sid)"
      and few: "length (filter (\<lambda>q. q \<noteq> r \<and> first_seen_at r \<le> first_seen_at q) (rows_of mid sid))
                < 2000"
  proof -
    have "r \<in> set (rows_of db' sid)"
    proof (cases "ids = []")
      case True
      then have "db' = db" "mid = db" using assms by (simp_all add: addSeenIds_def)
      with r show ?thesis by simp
    next
      case ne: False
      then have d': "db' = enforce_cap tie s mid"
        using assms by (simp add: addSeenIds_def)
      show ?thesis
      proof (cases "s = sid")
        case True
        with cap_retains [OF okm r, of tie] few show ?thesis
          by (simp add: d' SEEN_IDS_CAP_def)
      next
        case False
        then have "rows_of db' sid = rows_of mid sid"
          by (simp add: d' cap_other)
        with r show ?thesis by simp
      qed
    qed
    then show ?thesis by (auto simp: getSeenIds_def)
  qed
  have c7: "r \<notin> set (rows db')"
    if "r \<in> set (rows_of mid sid)" "s = sid" "ids \<noteq> []"
      "2000 \<le> length (filter (\<lambda>q. first_seen_at r < first_seen_at q) (rows_of mid sid))"
    using cap_evicts [OF okm that(1), of tie] that(2,3,4) assms
    by (simp add: addSeenIds_def SEEN_IDS_CAP_def)
  have c8: "r \<in> set (rows_of (run_calls cs2 db) sid)
        \<and> row_list_id r \<in> getSeenIds (run_calls (cs @ cs2) empty_db) sid"
    if r: "r \<in> set (rows_of db sid)"
      and few: "card (row_list_id ` {q \<in> set (rows_of db sid).
                                  q \<noteq> r \<and> first_seen_at r \<le> first_seen_at q}
                \<union> (inserted cs2 sid - {row_list_id r})) < 2000"
  proof -
    let ?B = "row_list_id ` {q \<in> set (rows_of db sid). q \<noteq> r \<and> first_seen_at r \<le> first_seen_at q}
                \<union> (inserted cs2 sid - {row_list_id r})"
    have fin: "finite ?B" by (simp add: finite_inserted)
    have "r \<in> set (rows_of (run_calls cs2 db) sid)"
      by (rule run_retains [OF ok r _ _ fin]) (use few in \<open>auto simp: SEEN_IDS_CAP_def\<close>)
    then show ?thesis
      by (auto simp: getSeenIds_def run_calls_append assms(1))
  qed
  have c9: "x \<in> getSeenIds db sid" if "x \<in> inserted cs sid" "card (inserted cs sid) \<le> 2000"
  proof -
    have "getSeenIds db sid = inserted cs sid"
      using run_inv [of cs] assms(1) that(2) by (simp add: SEEN_IDS_CAP_def)
    with that(1) show ?thesis by simp
  qed
  from c2 c3 c4 c5 c6 c7 c8 c9 show ?thesis by blast
qed

theorem recorded_ids_not_rediffed_witness:
  "''1'' \<in> inserted [(clock_at 0, row_id, ''s1'', [''1'', ''2''])] ''s1''
   \<and> card (inserted [(clock_at 0, row_id, ''s1'', [''1'', ''2''])] ''s1'') \<le> 2000
   \<and> ''1'' \<in> getSeenIds (run_calls [(clock_at 0, row_id, ''s1'', [''1'', ''2''])] empty_db) ''s1''
   \<and> ''1'' \<notin> list_id ` set (computeDiff [example_listing ''1'' None, example_listing ''3'' None]
                 (getSeenIds (run_calls [(clock_at 0, row_id, ''s1'', [''1'', ''2''])] empty_db)
                    ''s1''))"
proof -
  note kept = recorded_ids_not_rediffed
    [OF refl refl refl, where cs = "[(clock_at 0, row_id, ''s1'', [''1'', ''2''])]"
       and sid = "''s1''" and x = "''1''",
     THEN conjunct2, THEN conjunct2, THEN conjunct2, THEN conjunct2, THEN conjunct2,
     THEN conjunct2, rule_format]
  note fresh = recorded_ids_not_rediffed
    [OF refl refl refl, where cs = "[(clock_at 0, row_id, ''s1'', [''1'', ''2''])]"
       and sid = "''s1''" and x = "''1''"
       and ls = "[example_listing ''1'' None, example_listing ''3'' None]",
     THEN conjunct1, rule_format, THEN conjunct1]
  have a: "''1'' \<in> inserted [(clock_at 0, row_id, ''s1'', [''1'', ''2''])] ''s1''"
    by (simp add: inserted_def)
  have b: "card (inserted [(clock_at 0, row_id, ''s1'', [''1'', ''2''])] ''s1'') \<le> 2000"
    by (simp add: inserted_def)
  have c: "''1'' \<in> getSeenIds (run_calls [(clock_at 0, row_id, ''s1'', [''1'', ''2''])] empty_db)
                    ''s1''"
    using a b by (intro kept conjI)
  show ?thesis
    by (intro conjI) (rule a b c fresh [OF c])+
qed

text \<open>
  The claim as stated, for any number of later scans, fails once the cap evicts: the id
  \<^verbatim>\<open>2\<close> is recorded at second 0, a later scan records 2000 other ids at second 1, the cap
  deletes the oldest row, and a listing with id \<^verbatim>\<open>2\<close> fetched afterwards is reported as new.
\<close>

theorem recorded_id_rediffed_counterexample:
  "''2'' \<in> inserted [(clock_at 0, row_id, ''s1'', [''2'']),
                     (clock_at 1, row_id, ''s1'', example_ids 2000)] ''s1''
   \<and> computeDiff [example_listing ''2'' None]
        (getSeenIds (run_calls [(clock_at 0, row_id, ''s1'', [''2'']),
                                (clock_at 1, row_id, ''s1'', example_ids 2000)] empty_db) ''s1'')
       = [example_listing ''2'' None]"
proof -
  let ?s = "''s1''"
  let ?ids = "example_ids 2000"
  let ?db1 = "addSeenIds (clock_at 0) row_id empty_db ?s [''2'']"
  let ?mid = "insert_batch (clock_at 1) ?s ?ids ?db1"
  let ?db2 = "enforce_cap row_id ?s ?mid"
  have ids_ne: "?ids \<noteq> []"
    using length_example_ids [of 2000] by auto
  have "run_calls [(clock_at 0, row_id, ?s, [''2'']), (clock_at 1, row_id, ?s, ?ids)] empty_db
        = addSeenIds (clock_at 1) row_id ?db1 ?s ?ids"
    by (simp add: run_calls_def)
  also have "\<dots> = ?db2"
    by (rule add_nonempty [OF ids_ne])
  finally have run:
    "run_calls [(clock_at 0, row_id, ?s, [''2'']), (clock_at 1, row_id, ?s, ?ids)] empty_db
     = ?db2" .
  have ok1: "db_ok ?db1" by (rule add_db_ok [OF db_ok_empty])
  have okm: "db_ok ?mid" by (rule db_ok_batch [OF ok1])
  have seen1: "getSeenIds ?db1 ?s = {''2''}"
    using add_seen_noevict [OF db_ok_empty, of ?s "[''2'']" "clock_at 0" row_id]
    by (simp add: getSeenIds_def rows_of_def empty_db_def SEEN_IDS_CAP_def)
  have rows1: "\<forall>r\<in>set (rows ?db1). first_seen_at r = 0"
  proof -
    have "set (rows ?db1) \<subseteq> set (rows (insert_batch (clock_at 0) ?s [''2''] empty_db))"
      by (simp add: addSeenIds_def cap_subset)
    then show ?thesis
      by (auto simp: insert_or_ignore_def empty_db_def clock_at_def)
  qed
  obtain news where news: "rows ?mid = rows ?db1 @ news"
    "\<forall>r\<in>set news. row_search_id r = ?s \<and> row_list_id r \<in> set ?ids
        \<and> first_seen_at r \<in> range (clock_at 1)"
    using rows_batch_prefix by blast
  have cnt_mid: "length (rows_of ?mid ?s) = 2001"
  proof -
    have "card ({''2''} \<union> set ?ids) = Suc (card (set ?ids))"
      using two_not_example_id [of 2000] by simp
    then show ?thesis
      using count_card [OF okm, of ?s] by (simp add: seen_batch seen1 card_example_ids)
  qed
  have cnt2: "length (rows_of ?db2 ?s) = 2000"
    using cap_count [OF okm, of row_id ?s] cnt_mid by (simp add: SEEN_IDS_CAP_def)
  have "''2'' \<notin> getSeenIds ?db2 ?s"
  proof
    assume "''2'' \<in> getSeenIds ?db2 ?s"
    then obtain r where r: "r \<in> set (rows_of ?db2 ?s)" "row_list_id r = ''2''"
      by (auto simp: getSeenIds_def)
    then have "r \<in> set (rows ?mid)"
      using cap_subset [of row_id ?s ?mid] by (auto simp: rows_of_def)
    with news r(2) two_not_example_id [of 2000] have "r \<in> set (rows ?db1)" by auto
    with rows1 have r0: "first_seen_at r = 0" by blast
    have "\<not> set (rows_of ?mid ?s) \<subseteq> set (rows_of ?db2 ?s)"
    proof
      assume "set (rows_of ?mid ?s) \<subseteq> set (rows_of ?db2 ?s)"
      then have "card (set (rows_of ?mid ?s)) \<le> card (set (rows_of ?db2 ?s))"
        by (simp add: card_mono)
      also have "\<dots> \<le> length (rows_of ?db2 ?s)" by (rule card_length)
      finally show False
        using distinct_card [OF distinct_rows_of [OF okm], of ?s] cnt_mid cnt2 by simp
    qed
    then obtain d where d: "d \<in> set (rows_of ?mid ?s)" "d \<notin> set (rows_of ?db2 ?s)" by blast
    then have d2: "d \<notin> set (rows ?db2)" by (simp add: rows_of_def)
    have le: "first_seen_at d \<le> first_seen_at r"
      by (rule cap_order [OF okm r(1) d(1) d2])
    have "d \<notin> set (rows ?db1)"
    proof
      assume "d \<in> set (rows ?db1)"
      with d(1) have "d \<in> set (rows_of ?db1 ?s)" by (simp add: rows_of_def)
      then have "row_list_id d \<in> getSeenIds ?db1 ?s" by (simp add: getSeenIds_def)
      then have "row_list_id d = row_list_id r" by (simp add: seen1 r(2))
      moreover have inj: "inj_on row_list_id (set (rows_of ?mid ?s))"
        using distinct_list_ids [OF okm, of ?s] by (simp add: distinct_map)
      moreover have "r \<in> set (rows_of ?mid ?s)"
        using r(1) cap_subset [of row_id ?s ?mid] by (auto simp: rows_of_def)
      ultimately have "d = r"
        using d(1) by (blast dest: inj_onD)
      with r(1) d(2) show False by simp
    qed
    with d(1) news(1) have "d \<in> set news" by (auto simp: rows_of_def)
    with news(2) have "first_seen_at d = 1" by (auto simp: clock_at_def)
    with le r0 show False by simp
  qed
  then have "computeDiff [example_listing ''2'' None] (getSeenIds ?db2 ?s)
             = [example_listing ''2'' None]"
    by (simp add: computeDiff_def example_listing_def)
  moreover have "''2'' \<in> inserted [(clock_at 0, row_id, ?s, [''2'']),
                                   (clock_at 1, row_id, ?s, ?ids)] ?s"
    by (simp add: inserted_def)
  ultimately show ?thesis by (simp only: run)
qed
section \<open>Properties of the scan orchestrator\<close>

text \<open>
  Claim C5. Take any point of a \<^verbatim>\<open>fetchAllPages\<close> run at which a page is about to be fetched
  (\<^verbatim>\<open>page <= maxPages\<close>) and let the fetch return status 404. If no retry has been used, one
  forced refresh of the build identifier is made (the request counter rises by two: the page
  fetch and the refresh); if it yields a non-empty identifier different from the current one,
  the run goes on from the state with that identifier, the cache entry of the origin updated
  to it, the same page number and the retry count 1; if it fails or yields the same
  identifier, the run ends with stop reason \<^verbatim>\<open>error\<close>. If a retry has been used already, the
  run ends with stop reason \<^verbatim>\<open>error\<close> without a refresh. A final state with stop reason
  \<^verbatim>\<open>error\<close> is reported as \<^verbatim>\<open>error\<close>. In every run that returns, the retry count is at most 1
  and at most \<^verbatim>\<open>maxPages + 3\<close> requests are counted (the initial resolve, one fetch per page,
  one refresh and one repeated fetch).
\<close>

theorem stale_identifier_retry:
  "(page st \<le> maxPages
      \<and> snd (fetchPage (page_response e (requestsCount st + 1) (buildId st) (page st))) = 404 \<longrightarrow>
     (retryCount st = 0 \<and> html_build_id e (requestsCount st + 1) = Some b
        \<and> b \<noteq> [] \<and> b \<noteq> buildId st \<longrightarrow>
        fetch_loop e tz urlHost searchId maxPages st
        = fetch_loop e tz urlHost searchId maxPages
            (st\<lparr>requestsCount := requestsCount st + 2, buildId := b,
                buildIdCache := (buildIdCache st)(urlHost \<mapsto> (b, clock e (requestsCount st + 2))),
                page := page st, retryCount := 1\<rparr>))
     \<and> (retryCount st = 0
          \<and> (html_build_id e (requestsCount st + 1) = None
              \<or> html_build_id e (requestsCount st + 1) = Some []
              \<or> html_build_id e (requestsCount st + 1) = Some (buildId st)) \<longrightarrow>
        fetch_loop e tz urlHost searchId maxPages st
        = Inr (st\<lparr>requestsCount := requestsCount st + 2, stopReason := Error,
                   errorMessage := Some ''BuildId expired and refresh failed''\<rparr>))
     \<and> (1 \<le> retryCount st \<longrightarrow>
        fetch_loop e tz urlHost searchId maxPages st
        = Inr (st\<lparr>requestsCount := requestsCount st + 1, stopReason := Error,
                   errorMessage := Some ''Page 404 (likely buildId) after retry''\<rparr>)))
   \<and> (stopReason s = Error \<longrightarrow> stop_reason (finish e t0 maxPages s) = Error)
   \<and> (fetch_loop e tz urlHost searchId maxPages (initial_state b0 cache0) = Inr st' \<longrightarrow>
        retryCount st' \<le> 1 \<and> requestsCount st' \<le> nat maxPages + 3)"
proof (intro conjI impI; (elim conjE)?)
  assume "page st \<le> maxPages"
    "snd (fetchPage (page_response e (requestsCount st + 1) (buildId st) (page st))) = 404"
    "retryCount st = 0" "html_build_id e (requestsCount st + 1) = Some b"
    "b \<noteq> []" "b \<noteq> buildId st"
  then show "fetch_loop e tz urlHost searchId maxPages st
        = fetch_loop e tz urlHost searchId maxPages
            (st\<lparr>requestsCount := requestsCount st + 2, buildId := b,
                buildIdCache := (buildIdCache st)(urlHost \<mapsto> (b, clock e (requestsCount st + 2))),
                page := page st, retryCount := 1\<rparr>)"
    by (rule loop_refresh_retry)
next
  assume "page st \<le> maxPages"
    "snd (fetchPage (page_response e (requestsCount st + 1) (buildId st) (page st))) = 404"
    "retryCount st = 0"
    "html_build_id e (requestsCount st + 1) = None
      \<or> html_build_id e (requestsCount st + 1) = Some []
      \<or> html_build_id e (requestsCount st + 1) = Some (buildId st)"
  then show "fetch_loop e tz urlHost searchId maxPages st
        = Inr (st\<lparr>requestsCount := requestsCount st + 2, stopReason := Error,
                   errorMessage := Some ''BuildId expired and refresh failed''\<rparr>)"
    by (rule loop_refresh_failed)
next
  assume "page st \<le> maxPages"
    "snd (fetchPage (page_response e (requestsCount st + 1) (buildId st) (page st))) = 404"
    "1 \<le> retryCount st"
  then show "fetch_loop e tz urlHost searchId maxPages st
        = Inr (st\<lparr>requestsCount := requestsCount st + 1, stopReason := Error,
                   errorMessage := Some ''Page 404 (likely buildId) after retry''\<rparr>)"
    by (rule loop_retry_spent)
next
  assume "stopReason s = Error"
  then show "stop_reason (finish e t0 maxPages s) = Error"
    by (simp add: finish_def)
next
  assume run: "fetch_loop e tz urlHost searchId maxPages (initial_state b0 cache0) = Inr st'"
  from loop_invariants [OF run]
  show "retryCount st' \<le> 1" by (simp add: initial_state_def MAX_RETRIES_def)
next
  assume run: "fetch_loop e tz urlHost searchId maxPages (initial_state b0 cache0) = Inr st'"
  from loop_invariants [OF run]
  show "requestsCount st' \<le> nat maxPages + 3" by (simp add: initial_state_def MAX_RETRIES_def)
qed

theorem stale_identifier_retry_witness:
  "page (initial_state ''b1'' Map.empty) \<le> 5
   \<and> snd (fetchPage (page_response example_env 2 ''b1'' 1)) = 404
   \<and> html_build_id example_env 2 = Some ''b2''
   \<and> fetch_loop example_env example_iso ''www'' ''s1'' 5 (initial_state ''b1'' Map.empty)
       = fetch_loop example_env example_iso ''www'' ''s1'' 5
           ((initial_state ''b1'' Map.empty)
              \<lparr>requestsCount := 3, buildId := ''b2'',
               buildIdCache := [''www'' \<mapsto> (''b2'', 3000)], page := 1, retryCount := 1\<rparr>)"
proof -
  let ?st = "initial_state ''b1'' Map.empty"
  have a: "page ?st \<le> 5" by (simp add: initial_state_def)
  have b: "snd (fetchPage (page_response example_env (requestsCount ?st + 1) (buildId ?st) (page ?st))) = 404"
    by (simp add: initial_state_def example_env_def fetchPage_def)
  have c: "retryCount ?st = 0 \<and> html_build_id example_env (requestsCount ?st + 1) = Some ''b2''
           \<and> ''b2'' \<noteq> [] \<and> ''b2'' \<noteq> buildId ?st"
    by (simp add: initial_state_def example_env_def)
  from stale_identifier_retry [of ?st 5 example_env "''b2''" example_iso "''www''" "''s1''"] a b c
  have "fetch_loop example_env example_iso ''www'' ''s1'' 5 ?st
        = fetch_loop example_env example_iso ''www'' ''s1'' 5
            (?st\<lparr>requestsCount := requestsCount ?st + 2, buildId := ''b2'',
                buildIdCache := (buildIdCache ?st)(''www'' \<mapsto> (''b2'', clock example_env (requestsCount ?st + 2))),
                page := page ?st, retryCount := 1\<rparr>)"
    by blast
  note eq = this
  have f: "requestsCount ?st + 2 = 3" "clock example_env 3 = 3000" "page ?st = 1"
    "buildIdCache ?st = Map.empty"
    by (simp_all add: initial_state_def example_env_def)
  have g: "snd (fetchPage (page_response example_env 2 ''b1'' 1)) = 404"
    "html_build_id example_env 2 = Some ''b2''"
    by (simp_all add: example_env_def fetchPage_def)
  have eq': "fetch_loop example_env example_iso ''www'' ''s1'' 5 ?st
       = fetch_loop example_env example_iso ''www'' ''s1'' 5
           (?st\<lparr>requestsCount := 3, buildId := ''b2'',
               buildIdCache := [''www'' \<mapsto> (''b2'', 3000)], page := 1, retryCount := 1\<rparr>)"
    using eq by (simp only: f)
  show ?thesis
    by (intro conjI) (rule a g eq')+
qed

text \<open>
  Claim C4, as amended. Take any point of a \<^verbatim>\<open>fetchAllPages\<close> run at which a page is about to
  be fetched and let the fetch return a non-empty result array. If the first listing id of the
  page equals the first listing id recorded for any page accepted before, the run ends there
  with stop reason \<^verbatim>\<open>loop\<close> and the accumulated listings unchanged. Otherwise the first id is
  recorded under the page number: the map then sends the page number to that id and every other
  page number to what it was sent to before, and when the page number is new, as it is in every
  run, the entry is appended to the entries recorded so far. The parse-and-deduplicate loop runs
  after the recording: if it raises, the run ends in that exception and returns nothing; when
  every ad of the page is of the declared type, it does not raise, and the run goes on with the
  next page and with exactly the listings of the page appended whose ids were not met before in
  this run. In every run that returns, the recorded page numbers are pairwise distinct and below
  the page counter, and the recorded first ids are pairwise distinct. Given three pages with
  non-empty results, the ads of the first two of the declared type, where the first id of
  page 2 differs from that of page 1 and the first id of page 3 equals that of page 1, the run
  stops at page 3 with stop reason \<^verbatim>\<open>loop\<close>, with the first ids of pages 1 and 2 recorded and
  with the listings of pages 1 and 2 only.
\<close>

theorem anti_loop:
  "(page st \<le> maxPages
      \<and> fetchPage (page_response e (requestsCount st + 1) (buildId st) (page st)) = (ads, status)
      \<and> ads \<noteq> [] \<longrightarrow>
     (String_listId (listId (ads ! 0)) \<in> snd ` set (pageFirstIds st) \<longrightarrow>
        fetch_loop e tz urlHost searchId maxPages st
          = Inr (st\<lparr>requestsCount := requestsCount st + 1, stopReason := Loop\<rparr>)
        \<and> stop_reason (finish e t0 maxPages
              (st\<lparr>requestsCount := requestsCount st + 1, stopReason := Loop\<rparr>)) = Loop
        \<and> listings (finish e t0 maxPages
              (st\<lparr>requestsCount := requestsCount st + 1, stopReason := Loop\<rparr>)) = acc_listings st)
     \<and> (String_listId (listId (ads ! 0)) \<notin> snd ` set (pageFirstIds st) \<longrightarrow>
        fetch_loop e tz urlHost searchId maxPages st
        = (case add_ads searchId (tz (clock e (requestsCount st + 1))) ads
                  (acc_listings st, seenIds st) of
             Inl err \<Rightarrow> Inl err
           | Inr (ls, seen) \<Rightarrow>
               fetch_loop e tz urlHost searchId maxPages
                 (st\<lparr>requestsCount := requestsCount st + 1,
                     pageFirstIds := AList.update (page st) (String_listId (listId (ads ! 0)))
                                       (pageFirstIds st),
                     acc_listings := ls, seenIds := seen, page := page st + 1\<rparr>)))
     \<and> (String_listId (listId (ads ! 0)) \<notin> snd ` set (pageFirstIds st)
          \<and> list_all properties_well_typed ads \<longrightarrow>
        (\<exists>new. fetch_loop e tz urlHost searchId maxPages st
               = fetch_loop e tz urlHost searchId maxPages
                   (st\<lparr>requestsCount := requestsCount st + 1,
                       pageFirstIds := AList.update (page st) (String_listId (listId (ads ! 0)))
                                         (pageFirstIds st),
                       acc_listings := acc_listings st @ new,
                       seenIds := seenIds st \<union> (\<lambda>ad. String_listId (listId ad)) ` set ads,
                       page := page st + 1\<rparr>)
             \<and> list_id ` set new = (\<lambda>ad. String_listId (listId ad)) ` set ads - seenIds st
             \<and> distinct (map list_id new)))
     \<and> map_of (AList.update (page st) (String_listId (listId (ads ! 0))) (pageFirstIds st))
         = (map_of (pageFirstIds st))(page st \<mapsto> String_listId (listId (ads ! 0)))
     \<and> (page st \<notin> fst ` set (pageFirstIds st) \<longrightarrow>
          AList.update (page st) (String_listId (listId (ads ! 0))) (pageFirstIds st)
          = pageFirstIds st @ [(page st, String_listId (listId (ads ! 0)))]))
   \<and> (fetch_loop e tz urlHost searchId maxPages (initial_state b0 cache0) = Inr st' \<longrightarrow>
        distinct (map snd (pageFirstIds st')) \<and> distinct (map fst (pageFirstIds st'))
        \<and> (\<forall>k \<in> fst ` set (pageFirstIds st'). k < page st'))
   \<and> (3 \<le> maxPages
        \<and> fetchPage (page_response e 2 b0 1) = (p1, s1) \<and> p1 \<noteq> []
        \<and> fetchPage (page_response e 3 b0 2) = (p2, s2) \<and> p2 \<noteq> []
        \<and> fetchPage (page_response e 4 b0 3) = (p3, s3) \<and> p3 \<noteq> []
        \<and> list_all properties_well_typed (p1 @ p2)
        \<and> String_listId (listId (p2 ! 0)) \<noteq> String_listId (listId (p1 ! 0))
        \<and> String_listId (listId (p3 ! 0)) = String_listId (listId (p1 ! 0)) \<longrightarrow>
        (\<exists>st3. fetch_loop e tz urlHost searchId maxPages (initial_state b0 cache0) = Inr st3
           \<and> stopReason st3 = Loop \<and> page st3 = 3
           \<and> pageFirstIds st3
               = [(1, String_listId (listId (p1 ! 0))), (2, String_listId (listId (p2 ! 0)))]
           \<and> stop_reason (finish e t0 maxPages st3) = Loop
           \<and> list_id ` set (acc_listings st3)
               = (\<lambda>ad. String_listId (listId ad)) ` (set p1 \<union> set p2)))"
proof (intro conjI impI ballI; (elim conjE)?)
  assume a: "page st \<le> maxPages"
    "fetchPage (page_response e (requestsCount st + 1) (buildId st) (page st)) = (ads, status)"
    "ads \<noteq> []"
    "String_listId (listId (ads ! 0)) \<in> snd ` set (pageFirstIds st)"
  then show "fetch_loop e tz urlHost searchId maxPages st
          = Inr (st\<lparr>requestsCount := requestsCount st + 1, stopReason := Loop\<rparr>)"
    by (rule loop_detect)
  show "stop_reason (finish e t0 maxPages
              (st\<lparr>requestsCount := requestsCount st + 1, stopReason := Loop\<rparr>)) = Loop"
    by (simp add: finish_def)
  show "listings (finish e t0 maxPages
              (st\<lparr>requestsCount := requestsCount st + 1, stopReason := Loop\<rparr>)) = acc_listings st"
    by (simp add: finish_def)
next
  assume "page st \<le> maxPages"
    "fetchPage (page_response e (requestsCount st + 1) (buildId st) (page st)) = (ads, status)"
    "ads \<noteq> []"
    "String_listId (listId (ads ! 0)) \<notin> snd ` set (pageFirstIds st)"
  then show "fetch_loop e tz urlHost searchId maxPages st
        = (case add_ads searchId (tz (clock e (requestsCount st + 1))) ads
                  (acc_listings st, seenIds st) of
             Inl err \<Rightarrow> Inl err
           | Inr (ls, seen) \<Rightarrow>
               fetch_loop e tz urlHost searchId maxPages
                 (st\<lparr>requestsCount := requestsCount st + 1,
                     pageFirstIds := AList.update (page st) (String_listId (listId (ads ! 0)))
                                       (pageFirstIds st),
                     acc_listings := ls, seenIds := seen, page := page st + 1\<rparr>))"
    by (rule loop_accept_raw)
next
  assume "page st \<le> maxPages"
    "fetchPage (page_response e (requestsCount st + 1) (buildId st) (page st)) = (ads, status)"
    "ads \<noteq> []"
    "String_listId (listId (ads ! 0)) \<notin> snd ` set (pageFirstIds st)"
    "list_all properties_well_typed ads"
  then show "\<exists>new. fetch_loop e tz urlHost searchId maxPages st
               = fetch_loop e tz urlHost searchId maxPages
                   (st\<lparr>requestsCount := requestsCount st + 1,
                       pageFirstIds := AList.update (page st) (String_listId (listId (ads ! 0)))
                                         (pageFirstIds st),
                       acc_listings := acc_listings st @ new,
                       seenIds := seenIds st \<union> (\<lambda>ad. String_listId (listId ad)) ` set ads,
                       page := page st + 1\<rparr>)
             \<and> list_id ` set new = (\<lambda>ad. String_listId (listId ad)) ` set ads - seenIds st
             \<and> distinct (map list_id new)"
    by (rule loop_accept)
next
  show "map_of (AList.update (page st) (String_listId (listId (ads ! 0))) (pageFirstIds st))
         = (map_of (pageFirstIds st))(page st \<mapsto> String_listId (listId (ads ! 0)))"
    by (rule update_conv')
next
  assume "page st \<notin> fst ` set (pageFirstIds st)"
  then show "AList.update (page st) (String_listId (listId (ads ! 0))) (pageFirstIds st)
          = pageFirstIds st @ [(page st, String_listId (listId (ads ! 0)))]"
    by (rule update_fresh)
next
  assume run: "fetch_loop e tz urlHost searchId maxPages (initial_state b0 cache0) = Inr st'"
  from loop_invariants [OF run]
  show "distinct (map snd (pageFirstIds st'))" by (simp add: initial_state_def)
next
  assume run: "fetch_loop e tz urlHost searchId maxPages (initial_state b0 cache0) = Inr st'"
  from loop_keys [OF run]
  show "distinct (map fst (pageFirstIds st'))" by (simp add: initial_state_def)
next
  fix k
  assume run: "fetch_loop e tz urlHost searchId maxPages (initial_state b0 cache0) = Inr st'"
    and k: "k \<in> fst ` set (pageFirstIds st')"
  have "\<forall>k \<in> fst ` set (pageFirstIds st'). k < page st'"
    using loop_keys [OF run] by (simp add: initial_state_def)
  with k show "k < page st'" by blast
next
  assume "3 \<le> maxPages"
    "fetchPage (page_response e 2 b0 1) = (p1, s1)" "p1 \<noteq> []"
    "fetchPage (page_response e 3 b0 2) = (p2, s2)" "p2 \<noteq> []"
    "fetchPage (page_response e 4 b0 3) = (p3, s3)" "p3 \<noteq> []"
    "list_all properties_well_typed (p1 @ p2)"
    "String_listId (listId (p2 ! 0)) \<noteq> String_listId (listId (p1 ! 0))"
    "String_listId (listId (p3 ! 0)) = String_listId (listId (p1 ! 0))"
  from three_pages [OF this, of tz urlHost searchId cache0]
  obtain st3 where "fetch_loop e tz urlHost searchId maxPages (initial_state b0 cache0) = Inr st3"
    "stopReason st3 = Loop" "page st3 = 3"
    "pageFirstIds st3
       = [(1, String_listId (listId (p1 ! 0))), (2, String_listId (listId (p2 ! 0)))]"
    "list_id ` set (acc_listings st3) = (\<lambda>ad. String_listId (listId ad)) ` (set p1 \<union> set p2)"
    by blast
  moreover from this have "stop_reason (finish e t0 maxPages st3) = Loop"
    by (simp add: finish_stop)
  ultimately show "\<exists>st3. fetch_loop e tz urlHost searchId maxPages (initial_state b0 cache0) = Inr st3
           \<and> stopReason st3 = Loop \<and> page st3 = 3
           \<and> pageFirstIds st3
               = [(1, String_listId (listId (p1 ! 0))), (2, String_listId (listId (p2 ! 0)))]
           \<and> stop_reason (finish e t0 maxPages st3) = Loop
           \<and> list_id ` set (acc_listings st3)
               = (\<lambda>ad. String_listId (listId ad)) ` (set p1 \<union> set p2)"
    by blast
qed

theorem anti_loop_witness:
  "fetchPage (page_response example_env 4 ''b2'' 3)
     = ([example_ad 101 None None, example_ad 105 None None], 200)
   \<and> String_listId (listId ([example_ad 101 None None, example_ad 105 None None] ! 0))
       \<in> snd ` set [(1::int, ''101''), (2, ''103'')]
   \<and> fetch_loop example_env example_iso ''www'' ''s1'' 5
        ((initial_state ''b2'' Map.empty)
           \<lparr>requestsCount := 3, pageFirstIds := [(1, ''101''), (2, ''103'')], page := 3\<rparr>)
       = Inr ((initial_state ''b2'' Map.empty)
           \<lparr>requestsCount := 4, pageFirstIds := [(1, ''101''), (2, ''103'')], page := 3,
            stopReason := Loop\<rparr>)"
proof -
  define st where "st = (initial_state ''b2'' Map.empty)
           \<lparr>requestsCount := 3, pageFirstIds := [(1, ''101''), (2, ''103'')], page := 3\<rparr>"
  define ads where "ads = [example_ad 101 None None, example_ad 105 None None]"
  have f: "requestsCount st + 1 = 4" "buildId st = ''b2''" "page st = 3"
    "pageFirstIds st = [(1, ''101''), (2, ''103'')]"
    by (simp_all add: st_def initial_state_def)
  have b: "fetchPage (page_response example_env 4 ''b2'' 3) = (ads, 200)"
    by (simp add: ads_def example_env_def fetchPage_def valid_ad_def example_ad_def)
  have "String_nat 101 = ''101''" by code_simp
  then have c: "String_listId (listId (ads ! 0)) \<in> snd ` set [(1::int, ''101''), (2, ''103'')]"
    by (simp add: ads_def example_ad_def)
  have h1: "page st \<le> 5
      \<and> fetchPage (page_response example_env (requestsCount st + 1) (buildId st) (page st))
          = (ads, 200)
      \<and> ads \<noteq> []"
    unfolding f using b by (simp add: ads_def)
  have h2: "String_listId (listId (ads ! 0)) \<in> snd ` set (pageFirstIds st)"
    unfolding f by (rule c)
  note step = anti_loop [where st = st and maxPages = 5 and e = example_env and ads = ads
      and status = 200 and tz = example_iso and urlHost = "''www''" and searchId = "''s1''",
      THEN conjunct1, rule_format, THEN conjunct1, rule_format, THEN conjunct1]
  have "fetch_loop example_env example_iso ''www'' ''s1'' 5 st
          = Inr (st\<lparr>requestsCount := requestsCount st + 1, stopReason := Loop\<rparr>)"
    using h1 h2 by (rule step)
  then have "fetch_loop example_env example_iso ''www'' ''s1'' 5 st
          = Inr (st\<lparr>requestsCount := 4, stopReason := Loop\<rparr>)"
    unfolding f .
  moreover have "st\<lparr>requestsCount := 4, stopReason := Loop\<rparr>
     = (initial_state ''b2'' Map.empty)
           \<lparr>requestsCount := 4, pageFirstIds := [(1, ''101''), (2, ''103'')], page := 3,
            stopReason := Loop\<rparr>"
    by (simp add: st_def)
  ultimately show ?thesis
    using b c unfolding st_def ads_def by simp
qed


text \<open>
  The claim as stated, for every page with a non-empty result array, fails on a page that has
  an ad with a property entry without a label: the first id of the page is new, but \<^verbatim>\<open>parseAd\<close>
  raises on that ad, the exception leaves \<^verbatim>\<open>fetchAllPages\<close>, and the run returns neither the
  recorded first id nor any listing.
\<close>

theorem anti_loop_untyped_counterexample:
  "fetchPage (page_response example_env_untyped 2 ''b2'' 1)
     = ([example_ad 201 None (Some [\<lparr>label = None, prop_value = Some ''Gol''\<rparr>])], 200)
   \<and> String_listId (listId (example_ad 201 None (Some [\<lparr>label = None, prop_value = Some ''Gol''\<rparr>])))
       \<notin> snd ` set (pageFirstIds (initial_state ''b2'' [''www'' \<mapsto> (''b2'', 0)]))
   \<and> fetchAllPages example_env_untyped example_iso Map.empty ''www'' ''s1'' 5 = Inl TypeError"
proof -
  let ?ad = "example_ad 201 None (Some [\<lparr>label = None, prop_value = Some ''Gol''\<rparr>])"
  let ?st = "initial_state ''b2'' [''www'' \<mapsto> (''b2'', 0)]"
  have fp: "fetchPage (page_response example_env_untyped 2 ''b2'' 1) = ([?ad], 200)"
    by (simp add: example_env_untyped_def fetchPage_def valid_ad_def example_ad_def)
  have fresh: "String_listId (listId ?ad) \<notin> snd ` set (pageFirstIds ?st)"
    by (simp add: initial_state_def)
  have "parseAd ?ad ''s1'' now = Inl TypeError" for now
    by (simp add: example_ad_def parseAd_def model_of_properties_def)
  then have ads: "add_ads ''s1'' (example_iso (clock example_env_untyped (requestsCount ?st + 1)))
               [?ad] (acc_listings ?st, seenIds ?st) = Inl TypeError"
    by (simp add: initial_state_def)
  have "fetch_loop example_env_untyped example_iso ''www'' ''s1'' 5 ?st
        = (case add_ads ''s1'' (example_iso (clock example_env_untyped (requestsCount ?st + 1))) [?ad]
                  (acc_listings ?st, seenIds ?st) of
             Inl err \<Rightarrow> Inl err
           | Inr (ls, seen) \<Rightarrow>
               fetch_loop example_env_untyped example_iso ''www'' ''s1'' 5
                 (?st\<lparr>requestsCount := requestsCount ?st + 1,
                     pageFirstIds := AList.update (page ?st) (String_listId (listId ([?ad] ! 0)))
                                       (pageFirstIds ?st),
                     acc_listings := ls, seenIds := seen, page := page ?st + 1\<rparr>))"
    by (rule loop_accept_raw [where status = 200])
       (use fp fresh in \<open>simp_all add: initial_state_def numeral_2_eq_2\<close>)
  then have "fetch_loop example_env_untyped example_iso ''www'' ''s1'' 5 ?st = Inl TypeError"
    by (simp only: ads sum.case)
  moreover have "getBuildId example_env_untyped 0 Map.empty ''www''
                 = (Some ''b2'', [''www'' \<mapsto> (''b2'', 0)])"
    by (simp add: getBuildId_def resolve_fresh_def example_env_untyped_def)
  ultimately have "fetchAllPages example_env_untyped example_iso Map.empty ''www'' ''s1'' 5
                   = Inl TypeError"
    by (simp add: fetchAllPages_def)
  with fp fresh show ?thesis by simp
qed
end
